theory Spec2Isabelle
  imports Main "HOL-Library.Word"
begin

section \<open>FbTk signals: data model\<close>

text \<open>
  The development embeds \<^verbatim>\<open>src/FbTk/Signal.hh\<close>. Objects live at addresses; an address
  is a natural number. A node of a \<^verbatim>\<open>std::list\<close> has an identity of its own (the iterator
  that \<^verbatim>\<open>connect\<close> returns stays valid while the node is in the list), so a slot list is
  a list of pairs of a node identity and the \<^verbatim>\<open>SlotPtr\<close> stored there; \<open>None\<close> is the
  empty \<^verbatim>\<open>SlotPtr()\<close>.
\<close>

type_synonym sig_id = nat
type_synonym tracker_id = nat
type_synonym slot_id = nat
type_synonym args = "int list"

text \<open>
  \<open>args\<close> are the arguments of one emission, none to three values, kept as a list.
\<close>

text \<open>
  A functor is code of the caller. What it does when it is invoked, and what its
  destructor does when the last \<^verbatim>\<open>SlotPtr\<close> to it is dropped, is a list of calls into
  the public interface of signals and trackers.
\<close>

datatype action =
    Connect sig_id cb
  | Disconnect sig_id slot_id
  | Clear sig_id
  | Emit sig_id args
  | Join tracker_id sig_id cb
  | LeaveSig tracker_id sig_id
  | LeaveAll tracker_id
and cb = Cb (cb_name: nat) (cb_body: "action list") (cb_dtor: "action list")

type_synonym slot_ptr = "cb option"
type_synonym slot_list = "(slot_id \<times> slot_ptr) list"

text \<open>
  \<^verbatim>\<open>SignalHolder\<close>: \<open>m_emitting\<close> is an \<^verbatim>\<open>unsigned\<close>, \<open>m_trackers\<close> a
  \<^verbatim>\<open>std::set<Tracker*>\<close> (kept as a strictly ascending list of addresses). \<open>fresh\<close> is
  not a member of the class: it is the identity the next allocated list node gets, so
  that an iterator to an erased node is never mistaken for a later node.
\<close>

record holder =
  m_slots :: slot_list
  m_trackers :: "tracker_id list"
  m_emitting :: "32 word"
  fresh :: slot_id

text \<open>
  \<^verbatim>\<open>SignalTracker\<close>: \<open>m_connections\<close> is a \<^verbatim>\<open>std::map<SignalHolder*, SlotID>\<close>, kept as
  a list of pairs in ascending order of the key. A \<^verbatim>\<open>TrackID\<close> (an iterator of the map)
  is identified by the key of the entry it points to.
\<close>

record tracker =
  m_connections :: "(sig_id \<times> slot_id) list"

datatype event = Invoked (ev_sig: sig_id) (ev_slot: slot_id) (ev_name: nat) (ev_args: args)

record world =
  signals :: "sig_id \<rightharpoonup> holder"
  trackers :: "tracker_id \<rightharpoonup> tracker"
  log :: "event list"

text \<open>
  What C++ leaves undefined is an error value here: the use of an iterator whose node
  is gone, and a call on an object that has been destroyed. \<open>OutOfFuel\<close> stands for a
  run that did not finish within the given bound.
\<close>

datatype error = StaleIterator | DeadSignal | DeadTracker | OutOfFuel

type_synonym 'a res = "error + 'a"

definition and_then :: "'a res \<Rightarrow> ('a \<Rightarrow> 'b res) \<Rightarrow> 'b res" where
  "and_then r f = (case r of Inl e \<Rightarrow> Inl e | Inr x \<Rightarrow> f x)"

section \<open>SignalHolder\<close>

text \<open>The constructor: no slots, no trackers, not emitting.\<close>

definition SignalHolder :: holder where
  "SignalHolder = \<lparr>m_slots = [], m_trackers = [], m_emitting = 0, fresh = 0\<rparr>"

definition slot_ids :: "holder \<Rightarrow> slot_id list" where
  "slot_ids h = map fst (m_slots h)"

definition live_slots :: "holder \<Rightarrow> slot_list" where
  "live_slots h = filter (\<lambda>e. snd e \<noteq> None) (m_slots h)"

text \<open>\<^verbatim>\<open>*slotIt = SlotPtr()\<close>\<close>

definition assign_empty :: "slot_id \<Rightarrow> slot_list \<Rightarrow> slot_list" where
  "assign_empty i xs = map (\<lambda>e. if fst e = i then (fst e, None) else e) xs"

text \<open>\<^verbatim>\<open>m_slots.erase(slotIt)\<close>\<close>

definition erase_node :: "slot_id \<Rightarrow> slot_list \<Rightarrow> slot_list" where
  "erase_node i xs = filter (\<lambda>e. fst e \<noteq> i) xs"

text \<open>
  \<^verbatim>\<open>disconnect(SlotID slotIt)\<close>. The source does not look whether the node is still in
  the list; an iterator to a node that is gone is undefined there, and the first branch
  here.
\<close>

definition disconnect :: "holder \<Rightarrow> slot_id \<Rightarrow> holder res" where
  "disconnect h slotIt =
     (if slotIt \<notin> set (slot_ids h) then Inl StaleIterator
      else if m_emitting h \<noteq> 0 then Inr (h\<lparr>m_slots := assign_empty slotIt (m_slots h)\<rparr>)
      else Inr (h\<lparr>m_slots := erase_node slotIt (m_slots h)\<rparr>))"

text \<open>\<^verbatim>\<open>clear()\<close>: \<^verbatim>\<open>std::fill\<close> with the empty \<^verbatim>\<open>SlotPtr\<close> while emitting, \<^verbatim>\<open>m_slots.clear()\<close> otherwise.\<close>

definition clear :: "holder \<Rightarrow> holder" where
  "clear h =
     (if m_emitting h \<noteq> 0 then h\<lparr>m_slots := map (\<lambda>e. (fst e, None)) (m_slots h)\<rparr>
      else h\<lparr>m_slots := []\<rparr>)"

text \<open>\<^verbatim>\<open>std::set::insert\<close> on an ascending list: an element that is there is not added again.\<close>

fun set_insert :: "nat \<Rightarrow> nat list \<Rightarrow> nat list" where
  "set_insert x [] = [x]"
| "set_insert x (y # ys) =
     (if x = y then y # ys else if x < y then x # y # ys else y # set_insert x ys)"

definition connectTracker :: "holder \<Rightarrow> tracker_id \<Rightarrow> holder" where
  "connectTracker h t = h\<lparr>m_trackers := set_insert t (m_trackers h)\<rparr>"

definition disconnectTracker :: "holder \<Rightarrow> tracker_id \<Rightarrow> holder" where
  "disconnectTracker h t = h\<lparr>m_trackers := filter (\<lambda>x. x \<noteq> t) (m_trackers h)\<rparr>"

text \<open>\<^verbatim>\<open>m_slots.insert(m_slots.end(), slot)\<close>; the result is the new node's iterator.\<close>

definition connect :: "holder \<Rightarrow> slot_ptr \<Rightarrow> holder \<times> slot_id" where
  "connect h slot =
     (h\<lparr>m_slots := m_slots h @ [(fresh h, slot)], fresh := Suc (fresh h)\<rparr>, fresh h)"

text \<open>
  \<^verbatim>\<open>m_slots.erase(std::remove(m_slots.begin(), m_slots.end(), SlotPtr()), m_slots.end())\<close>.
  \<^verbatim>\<open>std::remove\<close> is the algorithm, not the member of the list: it assigns the values
  that are kept to the nodes at the front, in their order, and returns the node behind
  them; \<^verbatim>\<open>erase\<close> then frees the nodes from there on. So the first nodes of the list
  stay, holding the functors that are left, and the last nodes go.
\<close>

definition compact :: "slot_list \<Rightarrow> slot_list" where
  "compact xs = zip (map fst xs) (filter (\<lambda>p. p \<noteq> None) (map snd xs))"

text \<open>
  \<^verbatim>\<open>++m_emitting\<close>, and \<^verbatim>\<open>--m_emitting == 0\<close> followed by the compaction. The counter is
  an \<^verbatim>\<open>unsigned\<close>: both wrap around.
\<close>

definition begin_emitting :: "holder \<Rightarrow> holder" where
  "begin_emitting h = h\<lparr>m_emitting := m_emitting h + 1\<rparr>"

definition end_emitting :: "holder \<Rightarrow> holder" where
  "end_emitting h =
     (let h' = h\<lparr>m_emitting := m_emitting h - 1\<rparr>
      in if m_emitting h' = 0 then h'\<lparr>m_slots := compact (m_slots h')\<rparr> else h')"

text \<open>\<^verbatim>\<open>SignalTemplate::connect\<close> wraps the functor in a new, non-empty \<^verbatim>\<open>SlotPtr\<close>.\<close>

definition connect_functor :: "holder \<Rightarrow> cb \<Rightarrow> holder \<times> slot_id" where
  "connect_functor h functor = connect h (Some functor)"

section \<open>Calls on objects of the world\<close>

definition the_signal :: "sig_id \<Rightarrow> world \<Rightarrow> holder res" where
  "the_signal s w = (case signals w s of None \<Rightarrow> Inl DeadSignal | Some h \<Rightarrow> Inr h)"

definition the_tracker :: "tracker_id \<Rightarrow> world \<Rightarrow> tracker res" where
  "the_tracker t w = (case trackers w t of None \<Rightarrow> Inl DeadTracker | Some tr \<Rightarrow> Inr tr)"

definition put_signal :: "sig_id \<Rightarrow> holder \<Rightarrow> world \<Rightarrow> world" where
  "put_signal s h w = w\<lparr>signals := (signals w)(s \<mapsto> h)\<rparr>"

definition put_tracker :: "tracker_id \<Rightarrow> tracker \<Rightarrow> world \<Rightarrow> world" where
  "put_tracker t tr w = w\<lparr>trackers := (trackers w)(t \<mapsto> tr)\<rparr>"

text \<open>
  The functions below that can run code of a functor take that code's interpreter as
  their first argument \<open>run\<close>. Dropping the last \<^verbatim>\<open>SlotPtr\<close> to a functor runs its
  destructor, once the assignment or the \<^verbatim>\<open>erase\<close> that dropped it has changed the list.
\<close>

type_synonym runner = "action list \<Rightarrow> world \<Rightarrow> world res"

definition release :: "runner \<Rightarrow> slot_ptr \<Rightarrow> world \<Rightarrow> world res" where
  "release run slot w = (case slot of None \<Rightarrow> Inr w | Some f \<Rightarrow> run (cb_dtor f) w)"

fun release_all :: "runner \<Rightarrow> slot_ptr list \<Rightarrow> world \<Rightarrow> world res" where
  "release_all run [] w = Inr w"
| "release_all run (p # ps) w = and_then (release run p w) (release_all run ps)"

definition sig_connect :: "sig_id \<Rightarrow> cb \<Rightarrow> world \<Rightarrow> (world \<times> slot_id) res" where
  "sig_connect s functor w =
     and_then (the_signal s w) (\<lambda>h.
       let (h', slotIt) = connect_functor h functor in Inr (put_signal s h' w, slotIt))"

definition sig_disconnect :: "runner \<Rightarrow> sig_id \<Rightarrow> slot_id \<Rightarrow> world \<Rightarrow> world res" where
  "sig_disconnect run s slotIt w =
     and_then (the_signal s w) (\<lambda>h.
     and_then (disconnect h slotIt) (\<lambda>h'.
       release run (case map_of (m_slots h) slotIt of None \<Rightarrow> None | Some p \<Rightarrow> p)
         (put_signal s h' w)))"

definition sig_connectTracker :: "sig_id \<Rightarrow> tracker_id \<Rightarrow> world \<Rightarrow> world res" where
  "sig_connectTracker s t w =
     and_then (the_signal s w) (\<lambda>h. Inr (put_signal s (connectTracker h t) w))"

definition sig_disconnectTracker :: "sig_id \<Rightarrow> tracker_id \<Rightarrow> world \<Rightarrow> world res" where
  "sig_disconnectTracker s t w =
     and_then (the_signal s w) (\<lambda>h. Inr (put_signal s (disconnectTracker h t) w))"

section \<open>SignalTemplate: emission\<close>

text \<open>
  An \<^verbatim>\<open>Iterator\<close> is \<open>Some i\<close>, at the node \<open>i\<close>, or \<open>None\<close>, the list's \<^verbatim>\<open>end()\<close>.
\<close>

type_synonym iterator = "slot_id option"

definition list_begin :: "slot_list \<Rightarrow> iterator" where
  "list_begin xs = (case xs of [] \<Rightarrow> None | e # _ \<Rightarrow> Some (fst e))"

fun list_next :: "slot_list \<Rightarrow> slot_id \<Rightarrow> iterator res" where
  "list_next [] i = Inl StaleIterator"
| "list_next (e # es) i = (if fst e = i then Inr (list_begin es) else list_next es i)"

definition deref :: "slot_list \<Rightarrow> slot_id \<Rightarrow> slot_ptr res" where
  "deref xs i = (case map_of xs i of None \<Rightarrow> Inl StaleIterator | Some p \<Rightarrow> Inr p)"

text \<open>
  \<^verbatim>\<open>clear()\<close> with the destructors of the functors it drops. While the signal is emitting,
  \<^verbatim>\<open>std::fill\<close> assigns the empty \<^verbatim>\<open>SlotPtr\<close> node by node, up to \<^verbatim>\<open>end()\<close>; an assignment
  drops the functor that was at the node, and its destructor runs before the next node
  is reached. Otherwise \<^verbatim>\<open>m_slots.clear()\<close> destroys the nodes from the front; a
  destructor that runs meanwhile finds the nodes that are not yet destroyed. The first
  argument bounds the number of rounds. Where no destructor does anything, the result
  is the holder \<open>clear h\<close>.
\<close>

fun fill_loop :: "nat \<Rightarrow> runner \<Rightarrow> sig_id \<Rightarrow> iterator \<Rightarrow> world \<Rightarrow> world res" where
  "fill_loop 0 run s it w = Inl OutOfFuel"
| "fill_loop (Suc k) run s it w =
     and_then (the_signal s w) (\<lambda>h.
       case it of
         None \<Rightarrow> Inr w
       | Some i \<Rightarrow>
           and_then (deref (m_slots h) i) (\<lambda>p.
           and_then (release run p
                       (put_signal s (h\<lparr>m_slots := assign_empty i (m_slots h)\<rparr>) w)) (\<lambda>w'.
           and_then (the_signal s w') (\<lambda>h'.
           and_then (list_next (m_slots h') i) (\<lambda>it'.
             fill_loop k run s it' w')))))"

fun clear_loop :: "nat \<Rightarrow> runner \<Rightarrow> sig_id \<Rightarrow> world \<Rightarrow> world res" where
  "clear_loop 0 run s w = Inl OutOfFuel"
| "clear_loop (Suc k) run s w =
     and_then (the_signal s w) (\<lambda>h.
       case m_slots h of
         [] \<Rightarrow> Inr w
       | e # es \<Rightarrow>
           and_then (release run (snd e) (put_signal s (h\<lparr>m_slots := es\<rparr>) w))
             (clear_loop k run s))"

definition sig_clear :: "nat \<Rightarrow> runner \<Rightarrow> sig_id \<Rightarrow> world \<Rightarrow> world res" where
  "sig_clear k run s w =
     and_then (the_signal s w) (\<lambda>h.
       if m_emitting h \<noteq> 0 then fill_loop k run s (list_begin (m_slots h)) w
       else clear_loop k run s w)"

text \<open>The call of the functor at \<^verbatim>\<open>it\<close> with the emitted arguments, recorded in the log.\<close>

definition invoke :: "runner \<Rightarrow> sig_id \<Rightarrow> slot_id \<Rightarrow> cb \<Rightarrow> args \<Rightarrow> world \<Rightarrow> world res" where
  "invoke run s i f a w =
     run (cb_body f) (w\<lparr>log := log w @ [Invoked s i (cb_name f) a]\<rparr>)"

text \<open>
  The loop of \<^verbatim>\<open>emit_\<close>. Every round reads the signal again: \<^verbatim>\<open>end()\<close> and \<^verbatim>\<open>++it\<close>
  follow the list as the functors leave it. The first argument bounds the number of
  rounds.
\<close>

fun emit_loop :: "nat \<Rightarrow> runner \<Rightarrow> sig_id \<Rightarrow> iterator \<Rightarrow> args \<Rightarrow> world \<Rightarrow> world res" where
  "emit_loop 0 run s it a w = Inl OutOfFuel"
| "emit_loop (Suc k) run s it a w =
     and_then (the_signal s w) (\<lambda>h.
       case it of
         None \<Rightarrow> Inr w
       | Some i \<Rightarrow>
           and_then (deref (m_slots h) i) (\<lambda>p.
           and_then (case p of None \<Rightarrow> Inr w | Some f \<Rightarrow> invoke run s i f a w) (\<lambda>w'.
           and_then (the_signal s w') (\<lambda>h'.
           and_then (list_next (m_slots h') i) (\<lambda>it'.
             emit_loop k run s it' a w')))))"

text \<open>
  \<^verbatim>\<open>emit_\<close>, which every \<^verbatim>\<open>Signal::emit\<close> calls with its arguments (the list \<open>a\<close>).
\<close>

definition emit :: "nat \<Rightarrow> runner \<Rightarrow> sig_id \<Rightarrow> args \<Rightarrow> world \<Rightarrow> world res" where
  "emit k run s a w =
     and_then (the_signal s w) (\<lambda>h.
     and_then (emit_loop k run s (list_begin (m_slots h)) a
                 (put_signal s (begin_emitting h) w)) (\<lambda>w'.
     and_then (the_signal s w') (\<lambda>h'.
       Inr (put_signal s (end_emitting h') w'))))"

section \<open>SignalTracker\<close>

text \<open>\<^verbatim>\<open>m_connections.insert(value)\<close>: the map and whether the pair went in.\<close>

fun map_insert ::
  "sig_id \<times> slot_id \<Rightarrow> (sig_id \<times> slot_id) list \<Rightarrow> (sig_id \<times> slot_id) list \<times> bool" where
  "map_insert v [] = ([v], True)"
| "map_insert v (e # es) =
     (if fst v = fst e then (e # es, False)
      else if fst v < fst e then (v # e # es, True)
      else (e # fst (map_insert v es), snd (map_insert v es)))"

definition map_erase :: "sig_id \<Rightarrow> (sig_id \<times> slot_id) list \<Rightarrow> (sig_id \<times> slot_id) list" where
  "map_erase k m = filter (\<lambda>e. fst e \<noteq> k) m"

text \<open>
  \<^verbatim>\<open>join\<close>; the result is the entry that the returned \<^verbatim>\<open>TrackID\<close> points to, as it is
  right after the insertion.
\<close>

definition join ::
  "runner \<Rightarrow> tracker_id \<Rightarrow> sig_id \<Rightarrow> cb \<Rightarrow> world \<Rightarrow> (world \<times> (sig_id \<times> slot_id)) res" where
  "join run t s functor w =
     and_then (sig_connect s functor w) (\<lambda>(w1, slotIt).
     and_then (the_tracker t w1) (\<lambda>tr.
       let val = (s, slotIt);
           ret = map_insert val (m_connections tr);
           w2 = put_tracker t (tr\<lparr>m_connections := fst ret\<rparr>) w1
       in
     and_then (if \<not> snd ret then sig_disconnect run s (snd val) w2 else Inr w2) (\<lambda>w3.
     and_then (sig_connectTracker s t w3) (\<lambda>w4.
       Inr (w4, (s, case map_of (fst ret) s of None \<Rightarrow> slotIt | Some i \<Rightarrow> i))))))"

text \<open>\<^verbatim>\<open>leave(TrackID id, bool withTracker)\<close>\<close>

definition leave :: "runner \<Rightarrow> tracker_id \<Rightarrow> sig_id \<Rightarrow> bool \<Rightarrow> world \<Rightarrow> world res" where
  "leave run t tid withTracker w =
     and_then (the_tracker t w) (\<lambda>tr.
       case map_of (m_connections tr) tid of
         None \<Rightarrow> Inl StaleIterator
       | Some slotIt \<Rightarrow>
           let tmp = (tid, slotIt);
               w1 = put_tracker t (tr\<lparr>m_connections := map_erase tid (m_connections tr)\<rparr>) w
           in
           and_then (sig_disconnect run (fst tmp) (snd tmp) w1) (\<lambda>w2.
             if withTracker then sig_disconnectTracker (fst tmp) t w2 else Inr w2))"

text \<open>\<^verbatim>\<open>leave(Signal &sig)\<close>\<close>

definition leave_sig :: "runner \<Rightarrow> tracker_id \<Rightarrow> sig_id \<Rightarrow> world \<Rightarrow> world res" where
  "leave_sig run t s w =
     and_then (the_tracker t w) (\<lambda>tr.
       case map_of (m_connections tr) s of
         None \<Rightarrow> Inr w
       | Some _ \<Rightarrow> leave run t s False w)"

text \<open>\<^verbatim>\<open>leaveAll\<close>; the first argument bounds the number of rounds of its loop.\<close>

fun leaveAll :: "nat \<Rightarrow> runner \<Rightarrow> tracker_id \<Rightarrow> world \<Rightarrow> world res" where
  "leaveAll 0 run t w = Inl OutOfFuel"
| "leaveAll (Suc k) run t w =
     and_then (the_tracker t w) (\<lambda>tr.
       case m_connections tr of
         [] \<Rightarrow> Inr w
       | e # _ \<Rightarrow> and_then (leave run t (fst e) True w) (leaveAll k run t))"

text \<open>\<^verbatim>\<open>SignalTracker::disconnect(SignalHolder& signal)\<close>, the notification of a dying signal.\<close>

definition tracker_disconnect :: "tracker_id \<Rightarrow> sig_id \<Rightarrow> world \<Rightarrow> world res" where
  "tracker_disconnect t s w =
     and_then (the_tracker t w) (\<lambda>tr.
       Inr (put_tracker t (tr\<lparr>m_connections := map_erase s (m_connections tr)\<rparr>) w))"

text \<open>\<^verbatim>\<open>~SignalTracker\<close>: \<^verbatim>\<open>leaveAll\<close>, then the object is gone.\<close>

definition destroy_tracker :: "nat \<Rightarrow> runner \<Rightarrow> tracker_id \<Rightarrow> world \<Rightarrow> world res" where
  "destroy_tracker k run t w =
     and_then (leaveAll k run t w) (\<lambda>w'. Inr (w'\<lparr>trackers := (trackers w')(t := None)\<rparr>))"

text \<open>
  \<^verbatim>\<open>~SignalHolder\<close>: the loop over \<open>m_trackers\<close>, then the members go, and with \<open>m_slots\<close>
  the functors it held.
\<close>

fun notify_trackers :: "tracker_id list \<Rightarrow> sig_id \<Rightarrow> world \<Rightarrow> world res" where
  "notify_trackers [] s w = Inr w"
| "notify_trackers (t # ts) s w = and_then (tracker_disconnect t s w) (notify_trackers ts s)"

definition destroy_holder :: "runner \<Rightarrow> sig_id \<Rightarrow> world \<Rightarrow> world res" where
  "destroy_holder run s w =
     and_then (the_signal s w) (\<lambda>h.
     and_then (notify_trackers (m_trackers h) s w) (\<lambda>w'.
       release_all run (map snd (m_slots h)) (w'\<lparr>signals := (signals w')(s := None)\<rparr>)))"

section \<open>Running the code of functors\<close>

text \<open>
  One call of the public interface, made by a functor. \<open>k\<close> bounds the loops the call
  runs, \<open>run\<close> is the interpreter for the functors the call reaches.
\<close>

definition exec :: "nat \<Rightarrow> runner \<Rightarrow> action \<Rightarrow> world \<Rightarrow> world res" where
  "exec k run act w =
     (case act of
        Connect s f \<Rightarrow> and_then (sig_connect s f w) (\<lambda>(w', _). Inr w')
      | Disconnect s i \<Rightarrow> sig_disconnect run s i w
      | Clear s \<Rightarrow> sig_clear k run s w
      | Emit s a \<Rightarrow> emit k run s a w
      | Join t s f \<Rightarrow> and_then (join run t s f w) (\<lambda>(w', _). Inr w')
      | LeaveSig t s \<Rightarrow> leave_sig run t s w
      | LeaveAll t \<Rightarrow> leaveAll k run t w)"

text \<open>
  The interpreter: the first argument bounds how deep calls of functors nest (a functor
  can emit the signal that is invoking it), and the rounds of every loop.
\<close>

fun run_actions :: "nat \<Rightarrow> action list \<Rightarrow> world \<Rightarrow> world res" where
  "run_actions n [] w = Inr w"
| "run_actions 0 (act # acts) w = Inl OutOfFuel"
| "run_actions (Suc n) (act # acts) w =
     and_then (exec (Suc n) (run_actions n) act w) (run_actions (Suc n) acts)"

section \<open>Interleavings of the operations of one holder\<close>

text \<open>
  The operations that can reach one \<^verbatim>\<open>SignalHolder\<close>, in any order. \<^verbatim>\<open>emit_\<close> is its two
  halves, \<^verbatim>\<open>begin_emitting\<close> and \<^verbatim>\<open>end_emitting\<close>, with the calls of the functors in
  between; the number beside the holder counts the calls of \<^verbatim>\<open>emit_\<close> that have begun
  and not ended. A step is \<open>None\<close> where the sequence is no run of the class: an
  \<^verbatim>\<open>end_emitting\<close> with no \<^verbatim>\<open>emit_\<close> active, the \<^verbatim>\<open>disconnect\<close> of a node that is gone.
  \<open>peak\<close> is the largest number of nested calls of \<^verbatim>\<open>emit_\<close> along a sequence.
\<close>

datatype holder_op =
    OpConnect slot_ptr
  | OpDisconnect slot_id
  | OpClear
  | OpConnectTracker tracker_id
  | OpDisconnectTracker tracker_id
  | OpBeginEmit
  | OpEndEmit

definition holder_step :: "holder_op \<Rightarrow> holder \<times> nat \<Rightarrow> (holder \<times> nat) option" where
  "holder_step opn st =
     (case st of (h, n) \<Rightarrow>
        (case opn of
           OpConnect p \<Rightarrow> Some (fst (connect h p), n)
         | OpDisconnect i \<Rightarrow> (case disconnect h i of Inl _ \<Rightarrow> None | Inr h' \<Rightarrow> Some (h', n))
         | OpClear \<Rightarrow> Some (clear h, n)
         | OpConnectTracker t \<Rightarrow> Some (connectTracker h t, n)
         | OpDisconnectTracker t \<Rightarrow> Some (disconnectTracker h t, n)
         | OpBeginEmit \<Rightarrow> Some (begin_emitting h, Suc n)
         | OpEndEmit \<Rightarrow> (if n = 0 then None else Some (end_emitting h, n - 1))))"

fun holder_run :: "holder_op list \<Rightarrow> holder \<times> nat \<Rightarrow> (holder \<times> nat) option" where
  "holder_run [] st = Some st"
| "holder_run (opn # ops) st =
     (case holder_step opn st of None \<Rightarrow> None | Some st' \<Rightarrow> holder_run ops st')"

fun peak :: "holder_op list \<Rightarrow> nat \<Rightarrow> nat" where
  "peak [] n = n"
| "peak (opn # ops) n =
     max n (peak ops (case opn of OpBeginEmit \<Rightarrow> Suc n | OpEndEmit \<Rightarrow> n - 1 | _ \<Rightarrow> n))"

section \<open>Example objects\<close>

definition ex_slots :: slot_list where
  "ex_slots = [(0, Some (Cb 10 [] [])), (1, Some (Cb 11 [] [])), (2, Some (Cb 12 [] []))]"

definition ex_holder :: "32 word \<Rightarrow> holder" where
  "ex_holder d = \<lparr>m_slots = ex_slots, m_trackers = [], m_emitting = d, fresh = 3\<rparr>"

section \<open>What an emission is expected to log\<close>

text \<open>The invocations of the functors held in a slot list, in the list's order.\<close>

fun invocations :: "sig_id \<Rightarrow> args \<Rightarrow> slot_list \<Rightarrow> event list" where
  "invocations s a [] = []"
| "invocations s a ((i, None) # es) = invocations s a es"
| "invocations s a ((i, Some f) # es) = Invoked s i (cb_name f) a # invocations s a es"

text \<open>The functors that a functor's code connects, in the order of the calls.\<close>

fun connected :: "action list \<Rightarrow> cb list" where
  "connected [] = []"
| "connected (Connect s c # acts) = c # connected acts"
| "connected (act # acts) = connected acts"

text \<open>
  A functor that does nothing but connect functors to the signal \<open>s\<close>, each of which
  does nothing when it is invoked.
\<close>

definition connects_only :: "sig_id \<Rightarrow> cb \<Rightarrow> bool" where
  "connects_only s f =
     (cb_body f = map (Connect s) (connected (cb_body f)) \<and>
      list_all (\<lambda>c. cb_body c = []) (connected (cb_body f)))"

text \<open>The nodes that \<^verbatim>\<open>connect\<close> allocates for the functors \<open>cs\<close>, from the identity \<open>n\<close> on.\<close>

definition new_nodes :: "slot_id \<Rightarrow> cb list \<Rightarrow> slot_list" where
  "new_nodes n cs = zip [n ..< n + length cs] (map Some cs)"

fun connected_by :: "slot_list \<Rightarrow> cb list" where
  "connected_by [] = []"
| "connected_by ((i, None) # es) = connected_by es"
| "connected_by ((i, Some f) # es) = connected (cb_body f) @ connected_by es"

definition ex_world :: "holder \<Rightarrow> world" where
  "ex_world h = \<lparr>signals = [0 \<mapsto> h], trackers = Map.empty, log = []\<rparr>"

definition ex_connector :: holder where
  "ex_connector =
     \<lparr>m_slots = [(0, Some (Cb 10 [] [])), (1, Some (Cb 11 [Connect 0 (Cb 20 [] [])] []))],
      m_trackers = [], m_emitting = 0, fresh = 2\<rparr>"


text \<open>The slot list with the empty \<^verbatim>\<open>SlotPtr\<close> assigned at every node of \<open>js\<close>.\<close>

definition assign_empty_all :: "slot_id list \<Rightarrow> slot_list \<Rightarrow> slot_list" where
  "assign_empty_all js xs = map (\<lambda>e. if fst e \<in> set js then (fst e, None) else e) xs"





text \<open>
  A tracker at address 7 that has joined the signal at address 0 with one functor, the
  signal not emitting (\<open>d = 0\<close>) or in the middle of an emission (\<open>d = 1\<close>).
\<close>

definition ex_joined :: "32 word \<Rightarrow> world" where
  "ex_joined d =
     \<lparr>signals = [0 \<mapsto> \<lparr>m_slots = [(0, Some (Cb 10 [] []))], m_trackers = [7],
                         m_emitting = d, fresh = 1\<rparr>],
      trackers = [7 \<mapsto> \<lparr>m_connections = [(0, 0)]\<rparr>],
      log = []\<rparr>"

definition ex_fresh_world :: world where
  "ex_fresh_world =
     \<lparr>signals = [0 \<mapsto> SignalHolder], trackers = [7 \<mapsto> \<lparr>m_connections = []\<rparr>], log = []\<rparr>"

definition ex_rejoined :: world where
  "ex_rejoined =
     \<lparr>signals = [0 \<mapsto> \<lparr>m_slots = [(0, Some (Cb 10 [] [])), (1, None)], m_trackers = [7],
                         m_emitting = 1, fresh = 2\<rparr>],
      trackers = [7 \<mapsto> \<lparr>m_connections = [(0, 0)]\<rparr>],
      log = []\<rparr>"

text \<open>
  A tracker at address 7 that has joined the signal at address 0 with a functor whose
  destructor leaves that signal again.
\<close>

definition ex_reentrant :: world where
  "ex_reentrant =
     \<lparr>signals = [0 \<mapsto> \<lparr>m_slots = [(0, Some (Cb 10 [] [LeaveSig 7 0]))], m_trackers = [7],
                         m_emitting = 0, fresh = 1\<rparr>],
      trackers = [7 \<mapsto> \<lparr>m_connections = [(0, 0)]\<rparr>],
      log = []\<rparr>"

section \<open>Trackers whose entries are valid\<close>

text \<open>What \<^verbatim>\<open>disconnect(i)\<close> makes of a holder that has the node \<open>i\<close>.\<close>

definition unlink :: "slot_id \<Rightarrow> holder \<Rightarrow> holder" where
  "unlink i h =
     h\<lparr>m_slots := (if m_emitting h \<noteq> 0 then assign_empty i (m_slots h)
                    else erase_node i (m_slots h))\<rparr>"

text \<open>Code that does nothing but call \<^verbatim>\<open>leave(sig)\<close> on the tracker \<open>t\<close>.\<close>

definition leaves_only :: "tracker_id \<Rightarrow> action list \<Rightarrow> bool" where
  "leaves_only t acts = list_all (\<lambda>act. case act of LeaveSig t' s \<Rightarrow> t' = t | _ \<Rightarrow> False) acts"

text \<open>
  The entries \<open>m\<close> of the tracker \<open>t\<close> are valid in the world \<open>w\<close>: the keys ascend, as in
  a \<^verbatim>\<open>std::map\<close>; every entry names a signal that is alive and a node that is in the list
  of that signal; and the destructor of the functor at that node, if there is one,
  does nothing but call \<^verbatim>\<open>leave(sig)\<close> on \<open>t\<close>.
\<close>

definition tracked_ok :: "tracker_id \<Rightarrow> world \<Rightarrow> (sig_id \<times> slot_id) list \<Rightarrow> bool" where
  "tracked_ok t w m =
     (sorted_wrt (<) (map fst m) \<and>
      list_all (\<lambda>e. case signals w (fst e) of
                  None \<Rightarrow> False
                | Some h \<Rightarrow> distinct (slot_ids h) \<and>
                    (case map_of (m_slots h) (snd e) of
                       None \<Rightarrow> False
                     | Some None \<Rightarrow> True
                     | Some (Some f) \<Rightarrow> leaves_only t (cb_dtor f))) m)"

text \<open>
  The state \<open>w'\<close> that the tracker \<open>t\<close> has reached from \<open>w\<close>, where its entries were \<open>m\<close>,
  when the entries for the signals \<open>R\<close> remain: the other entries are erased and their
  slots disconnected, each once, and \<open>t\<close> may have been taken out of the trackers of
  those signals.
\<close>

definition progress ::
  "tracker_id \<Rightarrow> (sig_id \<times> slot_id) list \<Rightarrow> world \<Rightarrow> sig_id set \<Rightarrow> world \<Rightarrow> bool" where
  "progress t m w R w' =
     (R \<subseteq> fst ` set m \<and> log w' = log w \<and>
      trackers w' = (trackers w)(t \<mapsto> \<lparr>m_connections = filter (\<lambda>e. fst e \<in> R) m\<rparr>) \<and>
      (\<forall>s. s \<notin> fst ` set m \<or> s \<in> R \<longrightarrow> signals w' s = signals w s) \<and>
      (\<forall>e \<in> set m. fst e \<notin> R \<longrightarrow>
         (\<exists>h T. signals w (fst e) = Some h \<and>
                signals w' (fst e) = Some ((unlink (snd e) h)\<lparr>m_trackers := T\<rparr>) \<and>
                (T = m_trackers h \<or> T = filter (\<lambda>x. x \<noteq> t) (m_trackers h)))))"

text \<open>The world \<open>ex_joined 0\<close> after \<^verbatim>\<open>clear()\<close> on the signal.\<close>

definition ex_cleared :: world where
  "ex_cleared =
     \<lparr>signals = [0 \<mapsto> \<lparr>m_slots = [], m_trackers = [7], m_emitting = 0, fresh = 1\<rparr>],
      trackers = [7 \<mapsto> \<lparr>m_connections = [(0, 0)]\<rparr>],
      log = []\<rparr>"

text \<open>
  A tracker at address 7 with a connection on each of two signals; the destructor of
  the functor on the signal 0 leaves the signal 1.
\<close>

definition ex_two :: world where
  "ex_two =
     \<lparr>signals = [0 \<mapsto> \<lparr>m_slots = [(0, Some (Cb 10 [] [LeaveSig 7 1]))], m_trackers = [7],
                         m_emitting = 0, fresh = 1\<rparr>,
                  1 \<mapsto> \<lparr>m_slots = [(0, Some (Cb 11 [] [])), (1, Some (Cb 12 [] []))],
                         m_trackers = [7], m_emitting = 0, fresh = 2\<rparr>],
      trackers = [7 \<mapsto> \<lparr>m_connections = [(0, 0), (1, 0)]\<rparr>],
      log = []\<rparr>"

text \<open>A signal at address 0 watched by the tracker 7, which also tracks the signal 1.\<close>

definition ex_watched :: world where
  "ex_watched =
     \<lparr>signals = [0 \<mapsto> \<lparr>m_slots = [(0, Some (Cb 10 [] []))], m_trackers = [7],
                         m_emitting = 0, fresh = 1\<rparr>,
                  1 \<mapsto> \<lparr>m_slots = [(0, Some (Cb 11 [] []))], m_trackers = [7],
                         m_emitting = 0, fresh = 1\<rparr>],
      trackers = [7 \<mapsto> \<lparr>m_connections = [(0, 0), (1, 0)]\<rparr>],
      log = []\<rparr>"

definition ex_orphaned :: world where
  "ex_orphaned =
     \<lparr>signals = [1 \<mapsto> \<lparr>m_slots = [(0, Some (Cb 11 [] []))], m_trackers = [7],
                         m_emitting = 0, fresh = 1\<rparr>],
      trackers = [7 \<mapsto> \<lparr>m_connections = [(1, 0)]\<rparr>],
      log = []\<rparr>"

text \<open>
  A signal at address 0 with a functor that disconnects itself when it is invoked, and
  behind it the functor that the tracker 7 has joined with: the tracker holds the
  iterator of the node 1. Then the same world after \<^verbatim>\<open>emit()\<close>.
\<close>

definition ex_tracked :: world where
  "ex_tracked =
     \<lparr>signals = [0 \<mapsto> \<lparr>m_slots = [(0, Some (Cb 10 [Disconnect 0 0] [])),
                                    (1, Some (Cb 11 [] []))],
                         m_trackers = [7], m_emitting = 0, fresh = 2\<rparr>],
      trackers = [7 \<mapsto> \<lparr>m_connections = [(0, 1)]\<rparr>],
      log = []\<rparr>"

definition ex_compacted :: world where
  "ex_compacted =
     \<lparr>signals = [0 \<mapsto> \<lparr>m_slots = [(0, Some (Cb 11 [] []))],
                         m_trackers = [7], m_emitting = 0, fresh = 2\<rparr>],
      trackers = [7 \<mapsto> \<lparr>m_connections = [(0, 1)]\<rparr>],
      log = [Invoked 0 0 10 [], Invoked 0 1 11 []]\<rparr>"

text \<open>
  The world \<open>ex_tracked\<close> with one more functor, connected behind that of the tracker;
  and what \<^verbatim>\<open>emit()\<close> and then the destructor of the tracker make of it.
\<close>

definition ex_shared :: world where
  "ex_shared =
     \<lparr>signals = [0 \<mapsto> \<lparr>m_slots = [(0, Some (Cb 10 [Disconnect 0 0] [])),
                                    (1, Some (Cb 11 [] [])), (2, Some (Cb 12 [] []))],
                         m_trackers = [7], m_emitting = 0, fresh = 3\<rparr>],
      trackers = [7 \<mapsto> \<lparr>m_connections = [(0, 1)]\<rparr>],
      log = []\<rparr>"

definition ex_shifted :: world where
  "ex_shifted =
     \<lparr>signals = [0 \<mapsto> \<lparr>m_slots = [(0, Some (Cb 11 [] [])), (1, Some (Cb 12 [] []))],
                         m_trackers = [7], m_emitting = 0, fresh = 3\<rparr>],
      trackers = [7 \<mapsto> \<lparr>m_connections = [(0, 1)]\<rparr>],
      log = [Invoked 0 0 10 [], Invoked 0 1 11 [], Invoked 0 2 12 []]\<rparr>"

definition ex_mistaken :: world where
  "ex_mistaken =
     \<lparr>signals = [0 \<mapsto> \<lparr>m_slots = [(0, Some (Cb 11 [] []))],
                         m_trackers = [], m_emitting = 0, fresh = 3\<rparr>],
      trackers = Map.empty,
      log = [Invoked 0 0 10 [], Invoked 0 1 11 [], Invoked 0 2 12 []]\<rparr>"

text \<open>
  A signal at address 0 whose set of trackers still holds the tracker 7, which has
  left the signal with \<^verbatim>\<open>leave(sig)\<close>; and the same world once the tracker is destroyed.
\<close>

definition ex_left :: world where
  "ex_left =
     \<lparr>signals = [0 \<mapsto> \<lparr>m_slots = [], m_trackers = [7], m_emitting = 0, fresh = 1\<rparr>],
      trackers = [7 \<mapsto> \<lparr>m_connections = []\<rparr>],
      log = []\<rparr>"

definition ex_dangling :: world where
  "ex_dangling =
     \<lparr>signals = [0 \<mapsto> \<lparr>m_slots = [], m_trackers = [7], m_emitting = 0, fresh = 1\<rparr>],
      trackers = Map.empty,
      log = []\<rparr>"


text \<open>
  What the class keeps of a holder: the nodes of the list are distinct, none has the
  identity of a node still to be allocated, and the set of trackers has no duplicates.
\<close>

definition holder_inv :: "holder \<Rightarrow> bool" where
  "holder_inv h = (distinct (slot_ids h) \<and> list_all (\<lambda>i. i < fresh h) (slot_ids h) \<and>
     sorted_wrt (<) (m_trackers h))"

section \<open>Slot lists\<close>

lemma deref_mid: "i \<notin> fst ` set xs \<Longrightarrow> map_of (xs @ (i, p) # ys) i = Some p"
  by (induction xs) auto

lemma assign_empty_notin: "i \<notin> fst ` set xs \<Longrightarrow> assign_empty i xs = xs"
  by (induction xs) (auto simp: assign_empty_def)

lemma erase_node_notin: "i \<notin> fst ` set xs \<Longrightarrow> erase_node i xs = xs"
  by (induction xs) (auto simp: erase_node_def)

lemma assign_empty_mid:
  "i \<notin> fst ` set xs \<Longrightarrow> i \<notin> fst ` set ys \<Longrightarrow>
   assign_empty i (xs @ (i, p) # ys) = xs @ (i, None) # ys"
  using assign_empty_notin[of i xs] assign_empty_notin[of i ys]
  by (simp add: assign_empty_def)

lemma erase_node_mid:
  "i \<notin> fst ` set xs \<Longrightarrow> i \<notin> fst ` set ys \<Longrightarrow> erase_node i (xs @ (i, p) # ys) = xs @ ys"
  using erase_node_notin[of i xs] erase_node_notin[of i ys]
  by (simp add: erase_node_def)

section \<open>The emission counter\<close>

lemma word_sub_ne0: "k < unat (d :: 32 word) \<Longrightarrow> d - of_nat k \<noteq> 0"
  by (metis diff_is_0_eq' diff_less_mono eq_iff_diff_eq_0 le_unat_uoi
    less_nat_zero_code nat_le_linear)

lemma unat_succ: "Suc (unat (d :: 32 word)) < 2 ^ 32 \<Longrightarrow> unat (d + 1) = Suc (unat d)"
  by (simp add: unat_word_ariths)

lemma unat_pred: "0 < unat (d :: 32 word) \<Longrightarrow> unat (d - 1) = unat d - 1"
  by (metis unat_gt_0 unat_minus_one)

lemma depth_one: "(unat (d :: 32 word) = Suc 0) = (d - 1 = 0)"
  by (metis One_nat_def eq_iff_diff_eq_0 of_nat_unat ucast_id unat_1)

section \<open>disconnect\<close>

text \<open>
  C3. The node \<open>i\<close> holds a functor and is in the list, between the entries \<open>xs\<close> and
  \<open>ys\<close>. While the holder is emitting, \<^verbatim>\<open>disconnect(i)\<close> puts the empty \<^verbatim>\<open>SlotPtr\<close> at
  \<open>i\<close>: the list keeps its length and every other entry. While it is not emitting,
  \<^verbatim>\<open>disconnect(i)\<close> erases the node: the list is one entry shorter at once. Nothing
  else of the holder changes.
\<close>

theorem disconnect_policy:
  assumes "m_slots h = xs @ (i, Some f) # ys" and "distinct (slot_ids h)"
  shows "disconnect h i =
           Inr (h\<lparr>m_slots := (if m_emitting h \<noteq> 0 then xs @ (i, None) # ys else xs @ ys)\<rparr>) \<and>
         (\<forall>h'. disconnect h i = Inr h' \<longrightarrow>
            length (m_slots h') =
              (if m_emitting h \<noteq> 0 then length (m_slots h) else length (m_slots h) - 1))"
  using assms
  by (simp add: disconnect_def slot_ids_def assign_empty_mid erase_node_mid)

theorem disconnect_policy_witness:
  "disconnect (ex_holder 1) 1 =
     Inr (ex_holder 1\<lparr>m_slots := [(0, Some (Cb 10 [] [])), (1, None), (2, Some (Cb 12 [] []))]\<rparr>) \<and>
   disconnect (ex_holder 0) 1 =
     Inr (ex_holder 0\<lparr>m_slots := [(0, Some (Cb 10 [] [])), (2, Some (Cb 12 [] []))]\<rparr>)"
  using disconnect_policy [of "ex_holder 1" "[(0, Some (Cb 10 [] []))]" 1 "Cb 11 [] []"
      "[(2, Some (Cb 12 [] []))]"]
    disconnect_policy [of "ex_holder 0" "[(0, Some (Cb 10 [] []))]" 1 "Cb 11 [] []"
      "[(2, Some (Cb 12 [] []))]"]
  by (simp add: ex_holder_def ex_slots_def slot_ids_def)

section \<open>clear\<close>

lemma compact_all_empty: "\<forall>e \<in> set xs. snd e = None \<Longrightarrow> compact xs = []"
  by (auto simp: compact_def filter_empty_conv)

lemma compact_no_empty: "\<forall>e \<in> set xs. snd e \<noteq> None \<Longrightarrow> compact xs = xs"
proof -
  assume "\<forall>e \<in> set xs. snd e \<noteq> None"
  then have "filter (\<lambda>p. p \<noteq> None) (map snd xs) = map snd xs" by (auto simp: filter_id_conv)
  then show ?thesis by (simp add: compact_def zip_map_fst_snd)
qed

lemma end_emitting_funpow:
  "k \<le> unat (m_emitting h) \<Longrightarrow>
   (end_emitting ^^ k) h =
     h\<lparr>m_slots := (if k = unat (m_emitting h) \<and> k \<noteq> 0 then compact (m_slots h)
                    else m_slots h),
       m_emitting := m_emitting h - of_nat k\<rparr>"
proof (induction k)
  case 0
  then show ?case by simp
next
  case (Suc k)
  have ne: "m_emitting h - of_nat k \<noteq> 0"
    using Suc.prems(1) by (intro word_sub_ne0) simp
  have last: "(m_emitting h - of_nat k - 1 = 0) = (Suc k = unat (m_emitting h))"
  proof -
    have u: "unat (of_nat (Suc k) :: 32 word) = Suc k"
      using Suc.prems(1) by (rule le_unat_uoi)
    have "(m_emitting h - of_nat k - 1 = 0) = (m_emitting h = of_nat (Suc k))"
      by (auto simp: algebra_simps)
    also have "\<dots> = (Suc k = unat (m_emitting h))"
      using u by (metis of_nat_unat ucast_id)
    finally show ?thesis .
  qed
  have "(end_emitting ^^ Suc k) h = end_emitting ((end_emitting ^^ k) h)" by simp
  also have "\<dots> = end_emitting (h\<lparr>m_emitting := m_emitting h - of_nat k\<rparr>)"
    using Suc by simp
  also have "\<dots> = h\<lparr>m_slots := (if Suc k = unat (m_emitting h) \<and> Suc k \<noteq> 0
                                 then compact (m_slots h) else m_slots h),
       m_emitting := m_emitting h - of_nat (Suc k)\<rparr>"
    using last by (auto simp: end_emitting_def Let_def diff_diff_eq add.commute)
  finally show ?case .
qed

lemma end_emitting_pow:
  "k \<le> unat (m_emitting h) \<Longrightarrow> \<forall>e \<in> set (m_slots h). snd e = None \<Longrightarrow>
   (end_emitting ^^ k) h =
     h\<lparr>m_slots := (if k = unat (m_emitting h) \<and> k \<noteq> 0 then [] else m_slots h),
       m_emitting := m_emitting h - of_nat k\<rparr>"
  by (simp add: end_emitting_funpow compact_all_empty)

text \<open>
  C5. \<^verbatim>\<open>clear()\<close> on a holder that is emitting erases nothing: the list keeps its nodes
  and its length, and every entry is the empty \<^verbatim>\<open>SlotPtr\<close>. It stays so through the
  calls of \<^verbatim>\<open>end_emitting\<close> that leave the counter above zero; the one that brings the
  counter to zero leaves the list empty. \<^verbatim>\<open>clear()\<close> on a holder that is not emitting
  empties the list at once.
\<close>

theorem clear_policy:
  "(m_emitting h \<noteq> 0 \<longrightarrow>
      slot_ids (clear h) = slot_ids h \<and>
      length (m_slots (clear h)) = length (m_slots h) \<and>
      (\<forall>e \<in> set (m_slots (clear h)). snd e = None) \<and>
      (\<forall>k < unat (m_emitting h).
         slot_ids ((end_emitting ^^ k) (clear h)) = slot_ids h \<and>
         m_emitting ((end_emitting ^^ k) (clear h)) \<noteq> 0) \<and>
      m_slots ((end_emitting ^^ unat (m_emitting h)) (clear h)) = [] \<and>
      m_emitting ((end_emitting ^^ unat (m_emitting h)) (clear h)) = 0) \<and>
   (m_emitting h = 0 \<longrightarrow> m_slots (clear h) = [])"
proof (intro conjI impI)
  assume ne: "m_emitting h \<noteq> 0"
  let ?c = "clear h"
  have c: "?c = h\<lparr>m_slots := map (\<lambda>e. (fst e, None)) (m_slots h)\<rparr>"
    using ne by (simp add: clear_def)
  show ids: "slot_ids ?c = slot_ids h" by (simp add: c slot_ids_def comp_def)
  show "length (m_slots ?c) = length (m_slots h)" by (simp add: c)
  show allnone: "\<forall>e \<in> set (m_slots ?c). snd e = None" by (auto simp: c)
  have em: "m_emitting ?c = m_emitting h" by (simp add: c)
  have pos: "unat (m_emitting h) \<noteq> 0" using ne by (simp add: unat_eq_zero)
  show "\<forall>k < unat (m_emitting h).
         slot_ids ((end_emitting ^^ k) ?c) = slot_ids h \<and>
         m_emitting ((end_emitting ^^ k) ?c) \<noteq> 0"
  proof (intro allI impI)
    fix k assume k: "k < unat (m_emitting h)"
    then have "k \<le> unat (m_emitting ?c)" by (simp add: em)
    from end_emitting_pow[OF this allnone] k ids word_sub_ne0[OF k]
    show "slot_ids ((end_emitting ^^ k) ?c) = slot_ids h \<and>
         m_emitting ((end_emitting ^^ k) ?c) \<noteq> 0"
      by (simp add: em slot_ids_def)
  qed
  have "unat (m_emitting h) \<le> unat (m_emitting ?c)" by (simp add: em)
  from end_emitting_pow[OF this allnone] pos
  show "m_slots ((end_emitting ^^ unat (m_emitting h)) ?c) = []"
    and "m_emitting ((end_emitting ^^ unat (m_emitting h)) ?c) = 0"
    by (simp_all add: em)
next
  assume "m_emitting h = 0"
  then show "m_slots (clear h) = []" by (simp add: clear_def)
qed

theorem clear_policy_witness:
  "slot_ids (clear (ex_holder 2)) = [0, 1, 2] \<and>
   m_slots (clear (ex_holder 2)) = [(0, None), (1, None), (2, None)] \<and>
   slot_ids (end_emitting (clear (ex_holder 2))) = [0, 1, 2] \<and>
   m_slots (end_emitting (end_emitting (clear (ex_holder 2)))) = [] \<and>
   m_slots (clear (ex_holder 0)) = []"
  using clear_policy [of "ex_holder 2"] clear_policy [of "ex_holder 0"]
  by (simp add: ex_holder_def ex_slots_def slot_ids_def clear_def end_emitting_def compact_def)

section \<open>The emission counter along every interleaving\<close>

lemma peak_ge: "n \<le> peak ops n"
  by (cases ops) auto

lemma step_depth:
  assumes "holder_step opn (h, n) = Some (h', n')" "unat (m_emitting h) = n"
    "peak [opn] n < 2 ^ 32"
  shows "unat (m_emitting h') = n'"
  using assms
  by (cases opn)
     (auto simp: holder_step_def connect_def disconnect_def clear_def connectTracker_def
       disconnectTracker_def begin_emitting_def end_emitting_def Let_def unat_succ unat_pred
       split: if_splits sum.splits)

lemma step_nesting:
  "holder_step opn (h, n) = Some (h', n') \<Longrightarrow>
   n' = (case opn of OpBeginEmit \<Rightarrow> Suc n | OpEndEmit \<Rightarrow> n - 1 | _ \<Rightarrow> n)"
  by (cases opn) (auto simp: holder_step_def split: if_splits sum.splits)

lemma run_depth:
  "holder_run ops (h, n) = Some (h', n') \<Longrightarrow> unat (m_emitting h) = n \<Longrightarrow>
   peak ops n < 2 ^ 32 \<Longrightarrow> unat (m_emitting h') = n'"
proof (induction ops arbitrary: h n)
  case Nil
  then show ?case by simp
next
  case (Cons opn ops)
  from Cons.prems(1) obtain h1 n1 where
    st: "holder_step opn (h, n) = Some (h1, n1)" and rest: "holder_run ops (h1, n1) = Some (h', n')"
    by (auto split: option.splits)
  have n1: "n1 = (case opn of OpBeginEmit \<Rightarrow> Suc n | OpEndEmit \<Rightarrow> n - 1 | _ \<Rightarrow> n)"
    using st by (rule step_nesting)
  have pk: "peak ops n1 < 2 ^ 32" using Cons.prems(3) n1 by simp
  have "n1 \<le> peak ops n1" by (rule peak_ge)
  then have "peak [opn] n < 2 ^ 32" using Cons.prems(3) pk n1 by simp
  then have "unat (m_emitting h1) = n1" using st Cons.prems(2) by (rule step_depth[rotated 2])
  then show ?case using Cons.IH rest pk by blast
qed

lemma compact_values: "map snd (compact xs) = filter (\<lambda>p. p \<noteq> None) (map snd xs)"
proof -
  have "length (filter (\<lambda>p. p \<noteq> None) (map snd xs)) \<le> length (map fst xs)"
    using length_filter_le[of "\<lambda>p. p \<noteq> None" "map snd xs"] by simp
  then show ?thesis unfolding compact_def by (simp add: map_snd_zip_take del: length_map)
qed

lemma compact_nodes: "map fst (compact xs) = take (length (compact xs)) (map fst xs)"
  by (simp add: compact_def map_fst_zip_take)

lemma zip_tombstoned:
  "\<forall>e \<in> set (zip xs (map (\<lambda>e. if P e then (fst e, None) else e) xs)).
     snd (snd e) = snd (fst e) \<or> snd (snd e) = None"
  by (induction xs) auto

lemma step_slots:
  assumes "holder_step opn (h, n) = Some (h', n')" "unat (m_emitting h) = n"
  shows "if opn = OpEndEmit \<and> n = 1
         then map snd (m_slots h') = filter (\<lambda>p. p \<noteq> None) (map snd (m_slots h)) \<and>
              slot_ids h' = take (length (m_slots h')) (slot_ids h)
         else 0 < n \<longrightarrow>
              take (length (m_slots h)) (slot_ids h') = slot_ids h \<and>
              (\<forall>e \<in> set (zip (m_slots h) (m_slots h')).
                 snd (snd e) = snd (fst e) \<or> snd (snd e) = None)"
proof (cases opn)
  case OpEndEmit
  then show ?thesis using assms
    by (auto simp: holder_step_def end_emitting_def Let_def slot_ids_def depth_one
        compact_values compact_nodes zip_same
        split: if_splits)
next
  case (OpDisconnect i)
  have "m_slots h' = map (\<lambda>e. if fst e = i then (fst e, None) else e) (m_slots h)"
    if "0 < n"
    using that OpDisconnect assms
    by (auto simp: holder_step_def disconnect_def assign_empty_def split: if_splits sum.splits)
  then show ?thesis using OpDisconnect zip_tombstoned[of "m_slots h" "\<lambda>e. fst e = i"]
    by (auto simp: slot_ids_def comp_def intro!: map_cong)
next
  case OpClear
  have "m_slots h' = map (\<lambda>e. if True then (fst e, None) else e) (m_slots h)"
    if "0 < n"
    using that OpClear assms by (auto simp: holder_step_def clear_def)
  then show ?thesis using OpClear zip_tombstoned[of "m_slots h" "\<lambda>e. True"]
    by (auto simp: slot_ids_def comp_def)
next
  case (OpConnect p)
  then have "m_slots h' = m_slots h @ [(fresh h, p)]"
    using assms by (auto simp: holder_step_def connect_def)
  then show ?thesis using OpConnect by (auto simp: slot_ids_def zip_append2 zip_same)
qed (use assms in \<open>auto simp: holder_step_def connectTracker_def
       disconnectTracker_def begin_emitting_def slot_ids_def zip_same split: if_splits\<close>)

text \<open>
  C2. Take any sequence of operations on a new holder in which fewer than \<open>2 ^ 32\<close>
  calls of \<^verbatim>\<open>emit_\<close> are ever nested (the counter is an \<^verbatim>\<open>unsigned\<close>). In the state it
  reaches, \<open>m_emitting\<close> is the number of calls of \<^verbatim>\<open>emit_\<close> that are active. Of the steps
  from that state, the \<^verbatim>\<open>end_emitting\<close> that takes the number from 1 to 0 compacts the
  list: the functors that are left are exactly the entries that were not empty, in
  their order, and they are in the first nodes of the list. Any other step taken while
  a call of \<^verbatim>\<open>emit_\<close> is active keeps every node of the list in its place, and leaves the
  entry of each node as it was or empties it.
\<close>

theorem emission_depth_invariant:
  assumes "holder_run ops (SignalHolder, 0) = Some (h, n)" and "peak ops 0 < 2 ^ 32"
  shows "unat (m_emitting h) = n \<and>
         (\<forall>opn h' n'. holder_step opn (h, n) = Some (h', n') \<longrightarrow>
            (if opn = OpEndEmit \<and> n = 1
             then map snd (m_slots h') = filter (\<lambda>p. p \<noteq> None) (map snd (m_slots h)) \<and>
                  slot_ids h' = take (length (m_slots h')) (slot_ids h)
             else 0 < n \<longrightarrow>
                  take (length (m_slots h)) (slot_ids h') = slot_ids h \<and>
                  (\<forall>e \<in> set (zip (m_slots h) (m_slots h')).
                     snd (snd e) = snd (fst e) \<or> snd (snd e) = None)))"
proof -
  have d: "unat (m_emitting h) = n"
    using run_depth[OF assms(1) _ assms(2)] by (simp add: SignalHolder_def)
  show ?thesis using d step_slots by blast
qed

theorem emission_depth_invariant_witness:
  "holder_run [OpConnect (Some (Cb 10 [] [])), OpConnect (Some (Cb 11 [] [])), OpBeginEmit,
               OpDisconnect 0] (SignalHolder, 0) =
     Some (\<lparr>m_slots = [(0, None), (1, Some (Cb 11 [] []))], m_trackers = [],
            m_emitting = 1, fresh = 2\<rparr>, 1) \<and>
   peak [OpConnect (Some (Cb 10 [] [])), OpConnect (Some (Cb 11 [] [])), OpBeginEmit,
         OpDisconnect 0] 0 < 2 ^ 32 \<and>
   unat (m_emitting \<lparr>m_slots = [(0, None), (1, Some (Cb 11 [] []))], m_trackers = [],
            m_emitting = 1, fresh = 2\<rparr>) = 1 \<and>
   holder_step OpEndEmit (\<lparr>m_slots = [(0, None), (1, Some (Cb 11 [] []))], m_trackers = [],
            m_emitting = 1, fresh = 2\<rparr>, 1) =
     Some (\<lparr>m_slots = [(0, Some (Cb 11 [] []))], m_trackers = [],
            m_emitting = 0, fresh = 2\<rparr>, 0)"
  using emission_depth_invariant [of
      "[OpConnect (Some (Cb 10 [] [])), OpConnect (Some (Cb 11 [] [])), OpBeginEmit,
        OpDisconnect 0]"
      "\<lparr>m_slots = [(0, None), (1, Some (Cb 11 [] []))], m_trackers = [],
            m_emitting = 1, fresh = 2\<rparr>" 1]
  by (simp add: holder_step_def SignalHolder_def connect_def begin_emitting_def
      disconnect_def slot_ids_def assign_empty_def end_emitting_def compact_def)

section \<open>Emission\<close>

lemma list_next_mid:
  "i \<notin> fst ` set xs \<Longrightarrow> list_next (xs @ (i, p) # ys) i = Inr (list_begin ys)"
  by (induction xs) auto

lemma deref_at: "i \<notin> fst ` set xs \<Longrightarrow> deref (xs @ (i, p) # ys) i = Inr p"
  using deref_mid[of i xs p ys] by (simp add: deref_def del: map_of_append)

lemma and_then_Inr [simp]: "and_then (Inr x) f = f x"
  by (simp add: and_then_def)

lemma and_then_Inl [simp]: "and_then (Inl e) f = Inl e"
  by (simp add: and_then_def)

lemma the_signal_Some: "signals w s = Some h \<Longrightarrow> the_signal s w = Inr h"
  by (simp add: the_signal_def)

lemma invocations_append: "invocations s a (xs @ ys) = invocations s a xs @ invocations s a ys"
  by (induction xs rule: invocations.induct[of _ s a]) auto

lemma emit_loop_pure:
  assumes "signals w s = Some h" "m_slots h = pre @ rest" "distinct (map fst (pre @ rest))"
    "\<forall>e\<in>set rest. \<forall>f. snd e = Some f \<longrightarrow> cb_body f = []" "length rest < k"
  shows "emit_loop k (run_actions n) s (list_begin rest) a w =
           Inr (w\<lparr>log := log w @ invocations s a rest\<rparr>)"
  using assms
proof (induction rest arbitrary: pre w k)
  case Nil
  then obtain k' where "k = Suc k'" by (cases k) auto
  then show ?case using Nil by (simp add: list_begin_def the_signal_Some)
next
  case (Cons e r)
  obtain i p where e: "e = (i, p)" by (cases e)
  obtain k' where k: "k = Suc k'" using Cons.prems(5) by (cases k) auto
  have notin: "i \<notin> fst ` set pre" using Cons.prems(3) e by auto
  have sl: "m_slots h = pre @ (i, p) # r" using Cons.prems(2) e by simp
  let ?w1 = "case p of None \<Rightarrow> w | Some f \<Rightarrow> w\<lparr>log := log w @ [Invoked s i (cb_name f) a]\<rparr>"
  have inv: "(case p of None \<Rightarrow> Inr w | Some f \<Rightarrow> invoke (run_actions n) s i f a w) = Inr ?w1"
    using Cons.prems(4) e by (cases p) (auto simp: invoke_def)
  have s1: "signals ?w1 s = Some h" using Cons.prems(1) by (cases p) auto
  have ih: "emit_loop k' (run_actions n) s (list_begin r) a ?w1 =
           Inr (?w1\<lparr>log := log ?w1 @ invocations s a r\<rparr>)"
    apply (rule Cons.IH[where pre="pre @ [e]"])
    using s1 Cons.prems k by (auto simp: e)
  have "emit_loop k (run_actions n) s (list_begin (e # r)) a w
        = emit_loop k' (run_actions n) s (list_begin r) a ?w1"
    unfolding k e
    apply (simp add: list_begin_def[of "(i,p) # r"] the_signal_Some[OF Cons.prems(1)] sl deref_at[OF notin] inv
      the_signal_Some[OF s1] list_next_mid[OF notin])
    done
  also note ih
  finally show ?case by (cases p) (auto simp: e)
qed

lemma new_nodes_Nil [simp]: "new_nodes n [] = []"
  by (simp add: new_nodes_def)

lemma new_nodes_Cons: "new_nodes n (c # cs) = (n, Some c) # new_nodes (Suc n) cs"
  by (simp add: new_nodes_def upt_rec)

lemma new_nodes_append:
  "new_nodes n (xs @ ys) = new_nodes n xs @ new_nodes (n + length xs) ys"
  by (induction xs arbitrary: n) (auto simp: new_nodes_Cons)

lemma length_new_nodes [simp]: "length (new_nodes n cs) = length cs"
  by (simp add: new_nodes_def)

lemma fst_new_nodes: "map fst (new_nodes n cs) = [n ..< n + length cs]"
  by (simp add: new_nodes_def)

lemma snd_new_nodes: "e \<in> set (new_nodes n cs) \<Longrightarrow> \<exists>c \<in> set cs. snd e = Some c"
  by (auto simp: new_nodes_def set_zip)

lemma run_connects:
  "signals w s = Some h \<Longrightarrow>
   run_actions (Suc n) (map (Connect s) cs) w =
     Inr (put_signal s (h\<lparr>m_slots := m_slots h @ new_nodes (fresh h) cs,
                          fresh := fresh h + length cs\<rparr>) w)"
proof (induction cs arbitrary: w h)
  case Nil
  then show ?case by (auto simp: put_signal_def intro!: world.equality)
next
  case (Cons c cs)
  let ?h1 = "h\<lparr>m_slots := m_slots h @ [(fresh h, Some c)], fresh := Suc (fresh h)\<rparr>"
  have "exec (Suc n) (run_actions n) (Connect s c) w = Inr (put_signal s ?h1 w)"
    using Cons.prems
    by (simp add: exec_def sig_connect_def the_signal_Some connect_functor_def connect_def)
  moreover have "signals (put_signal s ?h1 w) s = Some ?h1" by (simp add: put_signal_def)
  ultimately show ?case using Cons.IH[of "put_signal s ?h1 w" ?h1]
    by (simp add: new_nodes_Cons put_signal_def)
qed

lemma list_begin_Cons: "list_begin ((i, p) # xs) = Some i"
  by (simp add: list_begin_def)

lemma emit_loop_step:
  assumes "signals w s = Some h" "m_slots h = pre @ (i, p) # rest" "i \<notin> fst ` set pre"
    "(case p of None \<Rightarrow> Inr w | Some f \<Rightarrow> invoke run s i f a w) = Inr w1"
    "signals w1 s = Some h1" "m_slots h1 = pre1 @ (i, p') # rest1" "i \<notin> fst ` set pre1"
  shows "emit_loop (Suc k) run s (Some i) a w = emit_loop k run s (list_begin rest1) a w1"
proof -
  have "deref (m_slots h) i = Inr p" using assms(2,3) by (simp add: deref_at)
  moreover have "list_next (m_slots h1) i = Inr (list_begin rest1)"
    using assms(6,7) by (simp add: list_next_mid)
  ultimately show ?thesis
    using assms(4) by (simp add: the_signal_Some[OF assms(1)] the_signal_Some[OF assms(5)])
qed

lemma connected_by_append: "connected_by (xs @ ys) = connected_by xs @ connected_by ys"
  by (induction xs rule: connected_by.induct) auto

lemma emit_loop_connectors:
  assumes "signals w s = Some h" "m_slots h = pre @ conns @ pures"
    "distinct (map fst (m_slots h))" "\<forall>i \<in> fst ` set (m_slots h). i < fresh h"
    "\<forall>e\<in>set conns. \<forall>f. snd e = Some f \<longrightarrow> connects_only s f"
    "\<forall>e\<in>set pures. \<forall>f. snd e = Some f \<longrightarrow> cb_body f = []"
    "length conns + length pures + length (connected_by conns) < k"
  shows "emit_loop k (run_actions (Suc n)) s (list_begin (conns @ pures)) a w =
           Inr (w\<lparr>signals := (signals w)(s \<mapsto>
                     h\<lparr>m_slots := m_slots h @ new_nodes (fresh h) (connected_by conns),
                       fresh := fresh h + length (connected_by conns)\<rparr>),
                  log := log w @ invocations s a
                     (conns @ pures @ new_nodes (fresh h) (connected_by conns))\<rparr>)"
  using assms
proof (induction conns arbitrary: pre pures w h k)
  case Nil
  have "emit_loop k (run_actions (Suc n)) s (list_begin pures) a w =
           Inr (w\<lparr>log := log w @ invocations s a pures\<rparr>)"
    using Nil.prems by (intro emit_loop_pure[where pre=pre and h=h]) auto
  moreover have "(signals w)(s \<mapsto> h) = signals w" using Nil.prems(1) by (rule map_upd_triv)
  ultimately show ?case by simp
next
  case (Cons e cs)
  obtain i p where e: "e = (i, p)" by (cases e)
  obtain k' where k: "k = Suc k'" using Cons.prems(7) by (cases k) auto
  have notin: "i \<notin> fst ` set pre" using Cons.prems(2,3) e by auto
  have sl: "m_slots h = pre @ (i, p) # (cs @ pures)" using Cons.prems(2) e by simp
  let ?nn = "new_nodes (fresh h) (case p of None \<Rightarrow> [] | Some f \<Rightarrow> connected (cb_body f))"
  let ?h1 = "h\<lparr>m_slots := m_slots h @ ?nn, fresh := fresh h + length ?nn\<rparr>"
  let ?w0 = "case p of None \<Rightarrow> w | Some f \<Rightarrow> w\<lparr>log := log w @ [Invoked s i (cb_name f) a]\<rparr>"
  let ?w1 = "put_signal s ?h1 ?w0"
  have inv: "(case p of None \<Rightarrow> Inr w | Some f \<Rightarrow> invoke (run_actions (Suc n)) s i f a w) = Inr ?w1"
  proof (cases p)
    case None
    then show ?thesis using Cons.prems(1)
      by (auto simp: put_signal_def intro!: world.equality)
  next
    case (Some f)
    have co: "connects_only s f" using Cons.prems(5) e Some by auto
    then have body: "cb_body f = map (Connect s) (connected (cb_body f))"
      by (simp add: connects_only_def)
    have "invoke (run_actions (Suc n)) s i f a w =
            run_actions (Suc n) (map (Connect s) (connected (cb_body f))) ?w0"
      using body by (simp add: invoke_def Some)
    also have "\<dots> = Inr ?w1"
      using Cons.prems(1) by (subst run_connects[where h=h]) (auto simp: Some)
    finally show ?thesis by (simp add: Some)
  qed
  have s1: "signals ?w1 s = Some ?h1" by (simp add: put_signal_def)
  have sl1: "m_slots ?h1 = (pre @ [e]) @ cs @ (pures @ ?nn)" using sl e by simp
  have pures1: "\<forall>e\<in>set (pures @ ?nn). \<forall>f. snd e = Some f \<longrightarrow> cb_body f = []"
  proof (cases p)
    case None
    then show ?thesis using Cons.prems(6) by simp
  next
    case (Some f)
    have co: "connects_only s f" using Cons.prems(5) e Some by auto
    then have "\<forall>c \<in> set (connected (cb_body f)). cb_body c = []"
      by (simp add: connects_only_def list_all_iff)
    then show ?thesis using Cons.prems(6) Some by (auto dest!: snd_new_nodes)
  qed
  have d1: "distinct (map fst (m_slots ?h1))"
    using Cons.prems(3,4) by (auto simp: fst_new_nodes)
  have f1: "\<forall>i \<in> fst ` set (m_slots ?h1). i < fresh ?h1"
  proof -
    have "fst ` set ?nn = set (map fst ?nn)" by simp
    also have "\<dots> = {fresh h ..< fresh h + length ?nn}" by (simp add: fst_new_nodes)
    finally show ?thesis using Cons.prems(4) by (auto simp: image_Un)
  qed
  have cb: "connected_by (e # cs) =
      (case p of None \<Rightarrow> [] | Some f \<Rightarrow> connected (cb_body f)) @ connected_by cs"
    by (cases p) (auto simp: e)
  have len: "length cs + length (pures @ ?nn) + length (connected_by cs) < k'"
    using Cons.prems(7) k by (simp add: cb)
  have ih: "emit_loop k' (run_actions (Suc n)) s (list_begin (cs @ (pures @ ?nn))) a ?w1 =
           Inr (?w1\<lparr>signals := (signals ?w1)(s \<mapsto>
                     ?h1\<lparr>m_slots := m_slots ?h1 @ new_nodes (fresh ?h1) (connected_by cs),
                       fresh := fresh ?h1 + length (connected_by cs)\<rparr>),
                  log := log ?w1 @ invocations s a
                     (cs @ (pures @ ?nn) @ new_nodes (fresh ?h1) (connected_by cs))\<rparr>)"
    using s1 sl1 d1 f1 Cons.prems(5) pures1 len
    by (intro Cons.IH[where pre="pre @ [e]"]) auto
  have step: "emit_loop k (run_actions (Suc n)) s (list_begin ((e # cs) @ pures)) a w
        = emit_loop k' (run_actions (Suc n)) s (list_begin (cs @ (pures @ ?nn))) a ?w1"
    unfolding k e append_Cons list_begin_Cons
    by (rule emit_loop_step[OF Cons.prems(1) sl notin inv s1, where p'=p and ?pre1.0=pre])
       (simp_all add: sl notin)
  have nodes: "new_nodes (fresh h) (connected_by (e # cs)) =
      ?nn @ new_nodes (fresh ?h1) (connected_by cs)"
    by (simp add: cb new_nodes_append)
  show ?case
    unfolding step ih nodes
    by (cases p) (auto simp: e put_signal_def invocations_append cb intro!: world.equality)
qed

lemma invocations_slots:
  "map ev_slot (invocations s a xs) = map fst (filter (\<lambda>e. snd e \<noteq> None) xs)"
  by (induction xs rule: invocations.induct[of _ s a]) auto

lemma invocations_args: "ev \<in> set (invocations s a xs) \<Longrightarrow> ev_args ev = a \<and> ev_sig ev = s"
  by (induction xs rule: invocations.induct[of _ s a]) auto

lemma invocations_new_nodes:
  "invocations s a (new_nodes n cs) =
     map (\<lambda>(i, c). Invoked s i (cb_name c) a) (zip [n ..< n + length cs] cs)"
  by (induction cs arbitrary: n) (auto simp: new_nodes_Cons upt_rec)

lemma begin_emitting_simps:
  "m_slots (begin_emitting h) = m_slots h" "fresh (begin_emitting h) = fresh h"
  "begin_emitting (h\<lparr>m_slots := xs, fresh := n\<rparr>) = (begin_emitting h)\<lparr>m_slots := xs, fresh := n\<rparr>"
  by (simp_all add: begin_emitting_def)

lemma emit_unfold:
  assumes "signals w s = Some h"
    "emit_loop k run s (list_begin (m_slots h)) a (put_signal s (begin_emitting h) w) = Inr w1"
    "signals w1 s = Some h1"
  shows "emit k run s a w = Inr (put_signal s (end_emitting h1) w1)"
  using assms by (simp add: emit_def the_signal_Some)

text \<open>
  C1. \<^verbatim>\<open>connect\<close> puts the functor in a new node at the tail of the list and returns that
  node. When the functors in the list of a signal do not call back into the signals,
  one \<^verbatim>\<open>emit\<close> logs exactly one invocation for every entry that holds a functor, with
  the emitted arguments, in the order of the list, which is the order of connection.
\<close>

theorem emit_invokes_each_connected:
  assumes "signals w s = Some h" and "distinct (slot_ids h)"
    and "\<forall>e\<in>set (m_slots h). \<forall>f. snd e = Some f \<longrightarrow> cb_body f = []"
    and "length (m_slots h) < k"
  shows "emit k (run_actions n) s a w =
           Inr (w\<lparr>signals := (signals w)(s \<mapsto> end_emitting (begin_emitting h)),
                  log := log w @ invocations s a (m_slots h)\<rparr>) \<and>
         map ev_slot (invocations s a (m_slots h)) = map fst (live_slots h) \<and>
         list_all (\<lambda>ev. ev_args ev = a) (invocations s a (m_slots h)) \<and>
         connect_functor h f =
           (h\<lparr>m_slots := m_slots h @ [(fresh h, Some f)], fresh := Suc (fresh h)\<rparr>, fresh h)"
proof -
  let ?h0 = "begin_emitting h"
  let ?w0 = "put_signal s ?h0 w"
  have "emit_loop k (run_actions n) s (list_begin (m_slots h)) a ?w0 =
          Inr (?w0\<lparr>log := log ?w0 @ invocations s a (m_slots h)\<rparr>)"
    using assms
    by (intro emit_loop_pure[where pre="[]" and h="?h0"])
       (auto simp: put_signal_def begin_emitting_def slot_ids_def)
  then have "emit k (run_actions n) s a w =
      Inr (put_signal s (end_emitting ?h0) (?w0\<lparr>log := log ?w0 @ invocations s a (m_slots h)\<rparr>))"
    by (rule emit_unfold[OF assms(1)]) (simp add: put_signal_def)
  then show ?thesis
    by (auto simp: put_signal_def invocations_slots live_slots_def list_all_iff
        invocations_args connect_functor_def connect_def)
qed

theorem emit_invokes_each_connected_witness:
  "fst (connect_functor (fst (connect_functor (fst (connect_functor SignalHolder
      (Cb 10 [] []))) (Cb 11 [] []))) (Cb 12 [] [])) = ex_holder 0 \<and>
   emit 4 (run_actions 0) 0 [1, 2] (ex_world (ex_holder 0)) =
     Inr ((ex_world (ex_holder 0))\<lparr>log :=
       [Invoked 0 0 10 [1, 2], Invoked 0 1 11 [1, 2], Invoked 0 2 12 [1, 2]]\<rparr>)"
  using emit_invokes_each_connected [of "ex_world (ex_holder 0)" 0 "ex_holder 0" 4 0 "[1, 2]"]
  by (simp add: ex_world_def ex_holder_def ex_slots_def slot_ids_def begin_emitting_def
      end_emitting_def compact_def connect_functor_def connect_def SignalHolder_def)

text \<open>
  C10. The functors in the list of the signal \<open>s\<close> do nothing but connect further
  functors to \<open>s\<close>, and those do nothing. Then one \<^verbatim>\<open>emit\<close> invokes the functors that
  were in the list, and after them, in the same emission, every functor that was
  connected meanwhile, once each, in the order in which they were connected: the loop
  compares with \<^verbatim>\<open>end()\<close> anew in every round.
\<close>

theorem emit_visits_appended:
  assumes "signals w s = Some h" and "distinct (slot_ids h)"
    and "\<forall>i\<in>set (slot_ids h). i < fresh h"
    and "\<forall>e\<in>set (m_slots h). \<forall>f. snd e = Some f \<longrightarrow> connects_only s f"
    and "length (m_slots h) + length (connected_by (m_slots h)) < k"
  shows "emit k (run_actions (Suc n)) s a w =
           Inr (w\<lparr>signals := (signals w)(s \<mapsto> end_emitting (begin_emitting
                     (h\<lparr>m_slots := m_slots h @ new_nodes (fresh h) (connected_by (m_slots h)),
                        fresh := fresh h + length (connected_by (m_slots h))\<rparr>))),
                  log := log w @ invocations s a (m_slots h) @
                    map (\<lambda>(i, c). Invoked s i (cb_name c) a)
                      (zip [fresh h ..< fresh h + length (connected_by (m_slots h))]
                           (connected_by (m_slots h)))\<rparr>)"
proof -
  let ?h0 = "begin_emitting h"
  let ?w0 = "put_signal s ?h0 w"
  let ?cs = "connected_by (m_slots h)"
  let ?w1 = "?w0\<lparr>signals := (signals ?w0)(s \<mapsto>
                     ?h0\<lparr>m_slots := m_slots ?h0 @ new_nodes (fresh ?h0) (connected_by (m_slots h)),
                       fresh := fresh ?h0 + length (connected_by (m_slots h))\<rparr>),
                  log := log ?w0 @ invocations s a
                     (m_slots h @ [] @ new_nodes (fresh ?h0) (connected_by (m_slots h)))\<rparr>"
  have "emit_loop k (run_actions (Suc n)) s (list_begin (m_slots h @ [])) a ?w0 = Inr ?w1"
    using assms
    by (intro emit_loop_connectors[where pre="[]" and h="?h0"])
       (auto simp: put_signal_def begin_emitting_def slot_ids_def)
  then have "emit_loop k (run_actions (Suc n)) s (list_begin (m_slots h)) a ?w0 = Inr ?w1"
    by simp
  then have "emit k (run_actions (Suc n)) s a w =
      Inr (put_signal s (end_emitting (?h0\<lparr>m_slots := m_slots ?h0 @ new_nodes (fresh ?h0) (connected_by (m_slots h)),
                       fresh := fresh ?h0 + length (connected_by (m_slots h))\<rparr>)) ?w1)"
    by (rule emit_unfold[OF assms(1)]) (simp add: put_signal_def)
  then show ?thesis
    by (simp add: put_signal_def invocations_append invocations_new_nodes begin_emitting_simps)
qed

theorem emit_visits_appended_witness:
  "emit 4 (run_actions 1) 0 [7] (ex_world ex_connector) =
     Inr ((ex_world ex_connector)\<lparr>
       signals := [0 \<mapsto> ex_connector\<lparr>m_slots := m_slots ex_connector @ [(2, Some (Cb 20 [] []))],
                                        fresh := 3\<rparr>],
       log := [Invoked 0 0 10 [7], Invoked 0 1 11 [7], Invoked 0 2 20 [7]]\<rparr>)"
  using emit_visits_appended [of "ex_world ex_connector" 0 ex_connector 4 0 "[7]"]
  by (simp add: ex_world_def ex_connector_def slot_ids_def begin_emitting_def
      end_emitting_def compact_def connects_only_def new_nodes_def)

lemma assign_empty_all_Nil [simp]: "assign_empty_all [] xs = xs"
  by (simp add: assign_empty_all_def)


lemma assign_empty_all_append:
  "assign_empty_all (js @ ks) xs = assign_empty_all ks (assign_empty_all js xs)"
  by (auto simp: assign_empty_all_def)

lemma fst_assign_empty_all [simp]: "map fst (assign_empty_all js xs) = map fst xs"
  by (simp add: assign_empty_all_def comp_def)

lemma fst_assign_empty [simp]: "map fst (assign_empty j xs) = map fst xs"
  by (simp add: assign_empty_def comp_def)






lemma fst_set_assign_empty_all [simp]: "fst ` set (assign_empty_all js xs) = fst ` set xs"
  using fst_assign_empty_all[of js xs] by (metis set_map)














lemma distinct_slot_ids_compact: "distinct (map fst xs) \<Longrightarrow> distinct (map fst (compact xs))"
  by (simp add: compact_nodes)


lemmas api_defs = emit_def exec_def sig_connect_def sig_disconnect_def sig_clear_def
  the_signal_def the_tracker_def put_signal_def put_tracker_def release_def
  connect_functor_def connect_def disconnect_def clear_def begin_emitting_def
  end_emitting_def compact_def slot_ids_def assign_empty_def erase_node_def
  list_begin_def deref_def invoke_def


section \<open>join\<close>

lemma the_tracker_Some: "trackers w t = Some tr \<Longrightarrow> the_tracker t w = Inr tr"
  by (simp add: the_tracker_def)

lemma map_insert_present:
  "sorted_wrt (<) (map fst m) \<Longrightarrow> map_of m k = Some v \<Longrightarrow> map_insert (k, x) m = (m, False)"
proof (induction m)
  case Nil
  then show ?case by simp
next
  case (Cons e m)
  show ?case
  proof (cases "fst e = k")
    case True
    then show ?thesis by simp
  next
    case False
    then have mo: "map_of m k = Some v" using Cons.prems(2) by (cases e) (auto split: if_splits)
    then have "k \<in> fst ` set m" by (metis map_of_eq_None_iff option.distinct(1))
    then have "fst e < k" using Cons.prems(1) by auto
    then show ?thesis using Cons.IH mo Cons.prems(1) by simp
  qed
qed

lemma set_set_insert: "set (set_insert x xs) = insert x (set xs)"
  by (induction xs) auto

lemma compact_snoc_empty:
  "map snd (compact (xs @ [(i, None)])) = filter (\<lambda>p. p \<noteq> None) (map snd xs)"
  by (simp add: compact_values)

text \<open>
  C6, as amended. The tracker \<open>t\<close> has an entry for the signal \<open>s\<close> already, and the
  destructor of the functor makes no call into signals or trackers. Then \<^verbatim>\<open>join\<close> leaves
  the tracker's map as it is, with one entry for each signal, and returns the entry
  that was there; the connection it made is disconnected at once, so the signal has
  the same functors as before. If the signal is not emitting, its list is what it was.
  If it is emitting, the node of the new connection stays in the list, empty, so the
  list is one entry longer; it stays so through the calls of \<^verbatim>\<open>end_emitting\<close> that leave
  the counter above zero, and the one that brings the counter to zero leaves in the
  list exactly the entries that were not empty before the \<^verbatim>\<open>join\<close>. (The keys of the map
  ascend, as in every \<^verbatim>\<open>std::map\<close>, and the node that \<^verbatim>\<open>connect\<close> allocates is new.)
\<close>

theorem join_existing:
  assumes "signals w s = Some h" and "trackers w t = Some tr"
    and "sorted_wrt (<) (map fst (m_connections tr))"
    and "map_of (m_connections tr) s = Some i0"
    and "fresh h \<notin> set (slot_ids h)" and "cb_dtor f = []"
  shows "\<exists>h'. join (run_actions n) t s f w =
                Inr (w\<lparr>signals := (signals w)(s \<mapsto> h')\<rparr>, (s, i0)) \<and>
              m_slots h' = (if m_emitting h \<noteq> 0 then m_slots h @ [(fresh h, None)]
                            else m_slots h) \<and>
              live_slots h' = live_slots h \<and> m_emitting h' = m_emitting h \<and>
              t \<in> set (m_trackers h') \<and>
              distinct (map fst (m_connections tr)) \<and>
              (\<forall>k < unat (m_emitting h). m_slots ((end_emitting ^^ k) h') = m_slots h') \<and>
              (m_emitting h \<noteq> 0 \<longrightarrow>
                 map snd (m_slots ((end_emitting ^^ unat (m_emitting h)) h')) =
                   filter (\<lambda>p. p \<noteq> None) (map snd (m_slots h)))"
proof -
  let ?h1 = "h\<lparr>m_slots := m_slots h @ [(fresh h, Some f)], fresh := Suc (fresh h)\<rparr>"
  let ?w1 = "put_signal s ?h1 w"
  let ?h2 = "h\<lparr>m_slots := (if m_emitting h \<noteq> 0 then m_slots h @ [(fresh h, None)]
                                      else m_slots h), fresh := Suc (fresh h)\<rparr>"
  have notin: "fresh h \<notin> fst ` set (m_slots h)" using assms(5) by (simp add: slot_ids_def)
  have c: "sig_connect s f w = Inr (?w1, fresh h)"
    using assms(1) by (simp add: sig_connect_def the_signal_Some connect_functor_def connect_def)
  have t1: "the_tracker t ?w1 = Inr tr" using assms(2) by (simp add: the_tracker_def put_signal_def)
  have ins: "map_insert (s, fresh h) (m_connections tr) = (m_connections tr, False)"
    using assms(3,4) by (rule map_insert_present)
  have w2: "put_tracker t tr ?w1 = ?w1"
    using assms(2) by (auto simp: put_tracker_def put_signal_def map_upd_triv)
  have d: "disconnect ?h1 (fresh h) = Inr ?h2"
    using assign_empty_mid[OF notin, of "[]" "Some f"] erase_node_mid[OF notin, of "[]" "Some f"]
    by (simp add: disconnect_def slot_ids_def)
  have mo: "map_of (m_slots h @ [(fresh h, Some f)]) (fresh h) = Some (Some f)"
    using notin by (rule deref_mid)
  have sd: "sig_disconnect (run_actions n) s (fresh h) ?w1 = Inr (put_signal s ?h2 w)"
    unfolding sig_disconnect_def
    by (simp add: the_signal_def put_signal_def d mo release_def assms(6) del: map_of_append)
  have "join (run_actions n) t s f w =
          Inr (w\<lparr>signals := (signals w)(s \<mapsto> connectTracker ?h2 t)\<rparr>, (s, i0))"
    unfolding join_def c
    apply (simp add: t1 ins Let_def w2 sd)
    apply (simp add: sig_connectTracker_def the_signal_def put_signal_def assms(4))
    done
  moreover have "distinct (map fst (m_connections tr))"
    using assms(3) by (simp add: strict_sorted_iff)
  moreover have "m_slots ((end_emitting ^^ k) (connectTracker ?h2 t)) =
      m_slots (connectTracker ?h2 t)" if "k < unat (m_emitting h)" for k
    using that end_emitting_funpow[of k "connectTracker ?h2 t"]
    by (simp add: connectTracker_def)
  moreover have "map snd (m_slots ((end_emitting ^^ unat (m_emitting h))
        (connectTracker ?h2 t))) = filter (\<lambda>p. p \<noteq> None) (map snd (m_slots h))"
    if "m_emitting h \<noteq> 0"
  proof -
    have "unat (m_emitting h) \<noteq> 0" using that by (simp add: unat_eq_zero)
    then show ?thesis
      using that end_emitting_funpow[of "unat (m_emitting h)" "connectTracker ?h2 t"]
      by (simp add: connectTracker_def compact_snoc_empty)
  qed
  ultimately show ?thesis
    by (intro exI[of _ "connectTracker ?h2 t"])
       (simp add: connectTracker_def live_slots_def set_set_insert)
qed

theorem join_existing_witness:
  "join (run_actions 0) 7 0 (Cb 11 [] []) (ex_joined 0) =
     Inr ((ex_joined 0)\<lparr>signals := [0 \<mapsto> \<lparr>m_slots = [(0, Some (Cb 10 [] []))],
              m_trackers = [7], m_emitting = 0, fresh = 2\<rparr>]\<rparr>, (0, 0)) \<and>
   join (run_actions 0) 7 0 (Cb 11 [] []) (ex_joined 1) = Inr (ex_rejoined, (0, 0)) \<and>
   map_option (\<lambda>h. m_slots (end_emitting h)) (signals ex_rejoined 0) =
     Some [(0, Some (Cb 10 [] []))]"
proof -
  have run: "join (run_actions 0) 7 0 (Cb 11 [] []) (ex_joined 0) =
     Inr ((ex_joined 0)\<lparr>signals := [0 \<mapsto> \<lparr>m_slots = [(0, Some (Cb 10 [] []))],
              m_trackers = [7], m_emitting = 0, fresh = 2\<rparr>]\<rparr>, (0, 0))"
    "join (run_actions 0) 7 0 (Cb 11 [] []) (ex_joined 1) = Inr (ex_rejoined, (0, 0))"
    "map_option (\<lambda>h. m_slots (end_emitting h)) (signals ex_rejoined 0) =
     Some [(0, Some (Cb 10 [] []))]"
    by (simp_all add: join_def api_defs ex_joined_def ex_rejoined_def sig_connectTracker_def
        connectTracker_def Let_def numeral_2_eq_2)
  from join_existing [of "ex_joined 0" 0
      "\<lparr>m_slots = [(0, Some (Cb 10 [] []))], m_trackers = [7], m_emitting = 0, fresh = 1\<rparr>"
      7 "\<lparr>m_connections = [(0, 0)]\<rparr>" 0 "Cb 11 [] []" 0]
    join_existing [of "ex_joined 1" 0
      "\<lparr>m_slots = [(0, Some (Cb 10 [] []))], m_trackers = [7], m_emitting = 1, fresh = 1\<rparr>"
      7 "\<lparr>m_connections = [(0, 0)]\<rparr>" 0 "Cb 11 [] []" 0] run
  show ?thesis by (simp add: ex_joined_def slot_ids_def)
qed

text \<open>
  C6 as it is stated fails while the signal is emitting: the first \<^verbatim>\<open>join\<close> leaves one
  entry in the list; the emission begins; the second \<^verbatim>\<open>join\<close>, made from a functor,
  leaves two entries in the list, the second one empty.
\<close>

theorem join_twice_counterexample:
  "join (run_actions 0) 7 0 (Cb 10 [] []) ex_fresh_world = Inr (ex_joined 0, (0, 0)) \<and>
   map_option begin_emitting (signals (ex_joined 0) 0) = signals (ex_joined 1) 0 \<and>
   join (run_actions 0) 7 0 (Cb 11 [] []) (ex_joined 1) = Inr (ex_rejoined, (0, 0)) \<and>
   map_option (\<lambda>h. length (m_slots h)) (signals (ex_joined 1) 0) = Some 1 \<and>
   map_option (\<lambda>h. length (m_slots h)) (signals ex_rejoined 0) = Some 2"
  by (simp add: join_def api_defs ex_joined_def ex_rejoined_def ex_fresh_world_def
      SignalHolder_def sig_connectTracker_def connectTracker_def Let_def numeral_2_eq_2)

section \<open>leave\<close>

lemma map_of_map_erase [simp]: "map_of (map_erase s m) s = None"
  by (induction m) (auto simp: map_erase_def)

lemma run_leave_absent:
  assumes "trackers w t = Some tr" "map_of (m_connections tr) s = None"
    "set acts \<subseteq> {LeaveSig t s}"
  shows "run_actions (Suc n) acts w = Inr w"
  using assms(3)
proof (induction acts)
  case Nil
  then show ?case by simp
next
  case (Cons act acts)
  then have "act = LeaveSig t s" by simp
  then have "exec (Suc n) (run_actions n) act w = Inr w"
    using assms(1,2) by (simp add: exec_def leave_sig_def the_tracker_Some)
  then show ?case using Cons by simp
qed

text \<open>
  C7. \<^verbatim>\<open>leave\<close> copies the entry, erases it from the map, and only then disconnects the
  slot. Let the destructor of the disconnected functor call \<^verbatim>\<open>leave\<close> again, on the same
  tracker and for the same signal, any number of times. Those calls find no entry and
  do nothing: \<^verbatim>\<open>leave\<close> returns without an error, the entry is erased once, the slot is
  disconnected once, and nothing else of the map or of the signal changes.
\<close>

theorem leave_reentrant:
  assumes "trackers w t = Some tr" and "map_of (m_connections tr) s = Some i"
    and "signals w s = Some h" and "m_slots h = xs @ (i, Some f) # ys"
    and "distinct (slot_ids h)" and "set (cb_dtor f) \<subseteq> {LeaveSig t s}"
  shows "leave (run_actions (Suc n)) t s withTracker w =
     Inr (w\<lparr>trackers := (trackers w)(t \<mapsto> tr\<lparr>m_connections := map_erase s (m_connections tr)\<rparr>),
            signals := (signals w)(s \<mapsto>
              h\<lparr>m_slots := (if m_emitting h \<noteq> 0 then xs @ (i, None) # ys else xs @ ys),
                m_trackers := (if withTracker then filter (\<lambda>x. x \<noteq> t) (m_trackers h)
                               else m_trackers h)\<rparr>)\<rparr>)"
proof -
  let ?tr1 = "tr\<lparr>m_connections := map_erase s (m_connections tr)\<rparr>"
  let ?w1 = "put_tracker t ?tr1 w"
  let ?h1 = "h\<lparr>m_slots := (if m_emitting h \<noteq> 0 then xs @ (i, None) # ys else xs @ ys)\<rparr>"
  let ?w2 = "put_signal s ?h1 ?w1"
  have notin: "i \<notin> fst ` set xs" "i \<notin> fst ` set ys"
    using assms(4,5) by (auto simp: slot_ids_def)
  have d: "disconnect h i = Inr ?h1"
    using assms(4) notin by (simp add: disconnect_def slot_ids_def assign_empty_mid erase_node_mid)
  have mo: "map_of (m_slots h) i = Some (Some f)"
    unfolding assms(4) using notin(1) by (rule deref_mid)
  have t2: "trackers ?w2 t = Some ?tr1" by (simp add: put_signal_def put_tracker_def)
  have "run_actions (Suc n) (cb_dtor f) ?w2 = Inr ?w2"
    using t2 _ assms(6) by (rule run_leave_absent) simp
  then have sd: "sig_disconnect (run_actions (Suc n)) s i ?w1 = Inr ?w2"
    using assms(3) by (simp add: sig_disconnect_def the_signal_def put_tracker_def d mo release_def)
  show ?thesis
    unfolding leave_def
    apply (simp add: the_tracker_Some[OF assms(1)] assms(2) Let_def sd)
    apply (auto simp: sig_disconnectTracker_def the_signal_def put_signal_def put_tracker_def
        disconnectTracker_def intro!: world.equality)
    done
qed

theorem leave_reentrant_witness:
  "leave (run_actions 1) 7 0 True ex_reentrant =
     Inr \<lparr>signals = [0 \<mapsto> \<lparr>m_slots = [], m_trackers = [], m_emitting = 0, fresh = 1\<rparr>],
          trackers = [7 \<mapsto> \<lparr>m_connections = []\<rparr>], log = []\<rparr>"
  using leave_reentrant [of ex_reentrant 7 "\<lparr>m_connections = [(0, 0)]\<rparr>" 0 0
      "\<lparr>m_slots = [(0, Some (Cb 10 [] [LeaveSig 7 0]))], m_trackers = [7],
                         m_emitting = 0, fresh = 1\<rparr>" "[]" "Cb 10 [] [LeaveSig 7 0]" "[]" 0 True]
  by (simp add: ex_reentrant_def slot_ids_def map_erase_def)

section \<open>leaveAll\<close>

lemma disconnect_unlink:
  "i \<in> set (slot_ids h) \<Longrightarrow> disconnect h i = Inr (unlink i h)"
  by (auto simp: disconnect_def unlink_def intro!: holder.equality)

lemma tracked_okD:
  assumes "tracked_ok t w m" "(s, i) \<in> set m"
  shows "\<exists>h p. signals w s = Some h \<and> distinct (slot_ids h) \<and> map_of (m_slots h) i = Some p \<and>
           i \<in> set (slot_ids h) \<and> (\<forall>f. p = Some f \<longrightarrow> leaves_only t (cb_dtor f))"
proof -
  from assms obtain h where h: "signals w s = Some h" "distinct (slot_ids h)"
    and c: "(case map_of (m_slots h) i of None \<Rightarrow> False | Some None \<Rightarrow> True
            | Some (Some f) \<Rightarrow> leaves_only t (cb_dtor f))"
    by (fastforce simp: tracked_ok_def list_all_iff split: option.splits)
  from c obtain p where p: "map_of (m_slots h) i = Some p" by (auto split: option.splits)
  then have "i \<in> set (slot_ids h)" by (auto simp: slot_ids_def dest: map_of_SomeD intro: rev_image_eqI)
  with h p c show ?thesis by (auto split: option.splits)
qed

lemma sorted_keys_distinct: "sorted_wrt (<) (map fst (m :: (nat \<times> nat) list)) \<Longrightarrow> distinct (map fst m)"
  by (simp add: strict_sorted_iff)

lemma map_of_filter_keys:
  "distinct (map fst m) \<Longrightarrow> (s, i) \<in> set m \<Longrightarrow> s \<in> R \<Longrightarrow>
   map_of (filter (\<lambda>e. fst e \<in> R) m) s = Some i"
  by (induction m) (auto simp: rev_image_eqI)

lemma map_of_filter_keys_None:
  "s \<notin> R \<Longrightarrow> map_of (filter (\<lambda>e. fst e \<in> R) m) s = None"
  by (induction m) auto

lemma map_erase_filter:
  "map_erase s (filter (\<lambda>e. fst e \<in> R) m) = filter (\<lambda>e. fst e \<in> R - {s}) m"
  by (induction m) (auto simp: map_erase_def)

lemma progress_tracker:
  "progress t m w R w1 \<Longrightarrow> the_tracker t w1 = Inr \<lparr>m_connections = filter (\<lambda>e. fst e \<in> R) m\<rparr>"
  by (simp add: progress_def the_tracker_def)

lemma progress_signal:
  "progress t m w R w1 \<Longrightarrow> s \<in> R \<Longrightarrow> signals w1 s = signals w s"
  by (simp add: progress_def)

lemma progress_start:
  "trackers w t = Some tr \<Longrightarrow> progress t (m_connections tr) w (fst ` set (m_connections tr)) w"
  by (auto simp: progress_def map_upd_triv)

lemma unlink_same_trackers: "(unlink i h)\<lparr>m_trackers := m_trackers h\<rparr> = unlink i h"
  by (simp add: unlink_def)

lemma progress_unlink:
  assumes "progress t m w R w1" "distinct (map fst m)" "(s, i) \<in> set m" "s \<in> R"
    "signals w s = Some h"
  shows "progress t m w (R - {s})
           (put_signal s (unlink i h)
              (put_tracker t \<lparr>m_connections = filter (\<lambda>e. fst e \<in> R - {s}) m\<rparr> w1))"
proof -
  have key: "snd e = i" if "e \<in> set m" "fst e = s" for e
    using that assms(2,3) by (metis eq_key_imp_eq_value prod.collapse)
  show ?thesis
    using assms(1,4,5)
    unfolding progress_def put_signal_def put_tracker_def
    apply (intro conjI)
        apply auto[4]
    apply (intro ballI impI)
    subgoal for e
      apply (cases "fst e = s")
       apply (rule exI[of _ h], rule exI[of _ "m_trackers h"])
       apply (simp add: key unlink_same_trackers)
      apply auto
      done
    done
qed

lemma progress_unwatch:
  assumes "progress t m w R w3" "distinct (map fst m)" "(s, i) \<in> set m" "s \<notin> R"
  shows "\<exists>h3. signals w3 s = Some h3 \<and>
           progress t m w R (put_signal s (disconnectTracker h3 t) w3)"
proof -
  from assms obtain h T where h: "signals w s = Some h"
    "signals w3 s = Some ((unlink i h)\<lparr>m_trackers := T\<rparr>)"
    "T = m_trackers h \<or> T = filter (\<lambda>x. x \<noteq> t) (m_trackers h)"
    unfolding progress_def by fastforce
  let ?h3 = "(unlink i h)\<lparr>m_trackers := T\<rparr>"
  have key: "snd e = i" if "e \<in> set m" "fst e = s" for e
    using that assms(2,3) by (metis eq_key_imp_eq_value prod.collapse)
  have sk: "s \<in> fst ` set m" using assms(3) by force
  have "progress t m w R (put_signal s (disconnectTracker ?h3 t) w3)"
    using assms(1,4) h sk
    unfolding progress_def put_signal_def disconnectTracker_def
    apply (intro conjI)
        apply auto[4]
    apply (intro ballI impI)
    subgoal for e
      apply (cases "fst e = s")
       apply (rule exI[of _ h], rule exI[of _ "filter (\<lambda>x. x \<noteq> t) (m_trackers h)"])
       apply (auto simp: key)[1]
      apply auto
      done
    done
  with h(2) show ?thesis by blast
qed

lemma progress_finite: "progress t m w R w1 \<Longrightarrow> finite R"
  unfolding progress_def by (meson finite_imageI finite_set finite_subset)

lemma leaves_only_Cons:
  "leaves_only t (act # acts) \<Longrightarrow> \<exists>s. act = LeaveSig t s \<and> leaves_only t acts"
  by (cases act) (auto simp: leaves_only_def)

lemma run_leaves_progress:
  assumes leave: "\<And>R w1 s flag. progress t m w R w1 \<Longrightarrow> s \<in> R \<Longrightarrow> card R \<le> n \<Longrightarrow>
            \<exists>R' w2. leave (run_actions n) t s flag w1 = Inr w2 \<and> progress t m w R' w2 \<and>
              R' \<subseteq> R - {s}"
    and "distinct (map fst m)"
  shows "leaves_only t acts \<Longrightarrow> progress t m w R w1 \<Longrightarrow> card R \<le> n \<Longrightarrow>
         \<exists>R' w2. run_actions (Suc n) acts w1 = Inr w2 \<and> progress t m w R' w2 \<and> R' \<subseteq> R"
proof (induction acts arbitrary: R w1)
  case Nil
  then show ?case by auto
next
  case (Cons act acts)
  from leaves_only_Cons[OF Cons.prems(1)] obtain s where
    act: "act = LeaveSig t s" and rest: "leaves_only t acts" by blast
  have "\<exists>R1 w2. exec (Suc n) (run_actions n) act w1 = Inr w2 \<and> progress t m w R1 w2 \<and> R1 \<subseteq> R"
  proof (cases "s \<in> R")
    case True
    then obtain i where "(s, i) \<in> set m" using Cons.prems(2) by (auto simp: progress_def)
    then have "map_of (filter (\<lambda>e. fst e \<in> R) m) s = Some i"
      using assms(2) True by (intro map_of_filter_keys)
    then have "exec (Suc n) (run_actions n) act w1 = leave (run_actions n) t s False w1"
      by (simp add: act exec_def leave_sig_def progress_tracker[OF Cons.prems(2)])
    then show ?thesis using leave[OF Cons.prems(2) True Cons.prems(3), of False] by auto
  next
    case False
    then have "map_of (filter (\<lambda>e. fst e \<in> R) m) s = None" by (rule map_of_filter_keys_None)
    then have "exec (Suc n) (run_actions n) act w1 = Inr w1"
      by (simp add: act exec_def leave_sig_def progress_tracker[OF Cons.prems(2)])
    then show ?thesis using Cons.prems(2) by auto
  qed
  then obtain R1 w2 where e: "exec (Suc n) (run_actions n) act w1 = Inr w2"
    and p1: "progress t m w R1 w2" and sub: "R1 \<subseteq> R" by blast
  have "card R1 \<le> n"
    using card_mono[OF progress_finite[OF Cons.prems(2)] sub] Cons.prems(3) by simp
  from Cons.IH[OF rest p1 this] obtain R' w3 where
    "run_actions (Suc n) acts w2 = Inr w3" "progress t m w R' w3" "R' \<subseteq> R1" by blast
  then show ?case using e sub by auto
qed

lemma leave_progress:
  assumes ok: "tracked_ok t w m"
  shows "progress t m w R w1 \<Longrightarrow> s \<in> R \<Longrightarrow> card R \<le> n \<Longrightarrow>
         \<exists>R' w2. leave (run_actions n) t s flag w1 = Inr w2 \<and> progress t m w R' w2 \<and>
           R' \<subseteq> R - {s}"
proof (induction n arbitrary: R w1 s flag)
  case 0
  then show ?case using progress_finite[OF "0.prems"(1)] by auto
next
  case (Suc n)
  have dist: "distinct (map fst m)" using ok by (simp add: tracked_ok_def sorted_keys_distinct)
  obtain i where mem: "(s, i) \<in> set m" using Suc.prems(1,2) by (auto simp: progress_def)
  from tracked_okD[OF ok mem] obtain h p where h: "signals w s = Some h"
    and p: "map_of (m_slots h) i = Some p" and ids: "i \<in> set (slot_ids h)"
    and dt: "\<forall>f. p = Some f \<longrightarrow> leaves_only t (cb_dtor f)" by blast
  let ?R1 = "R - {s}"
  let ?w1 = "put_tracker t \<lparr>m_connections = filter (\<lambda>e. fst e \<in> ?R1) m\<rparr> w1"
  let ?w2 = "put_signal s (unlink i h) ?w1"
  have mo: "map_of (filter (\<lambda>e. fst e \<in> R) m) s = Some i"
    using dist mem Suc.prems(2) by (rule map_of_filter_keys)
  have p2: "progress t m w ?R1 ?w2"
    using Suc.prems(1) dist mem Suc.prems(2) h by (rule progress_unlink)
  have c1: "card ?R1 \<le> n"
    using Suc.prems(2,3) progress_finite[OF Suc.prems(1)] by simp
  have "\<exists>R' w3. release (run_actions (Suc n)) p ?w2 = Inr w3 \<and> progress t m w R' w3 \<and> R' \<subseteq> ?R1"
  proof (cases p)
    case None
    then show ?thesis using p2 by (auto simp: release_def)
  next
    case (Some f)
    then have "leaves_only t (cb_dtor f)" using dt by simp
    from run_leaves_progress[OF Suc.IH dist this p2 c1] show ?thesis
      by (simp add: release_def Some)
  qed
  then obtain R' w3 where rel: "release (run_actions (Suc n)) p ?w2 = Inr w3"
    and p3: "progress t m w R' w3" and sub: "R' \<subseteq> ?R1" by blast
  have s1: "signals ?w1 s = Some h"
    using progress_signal[OF Suc.prems(1,2)] h by (simp add: put_tracker_def)
  have sd: "sig_disconnect (run_actions (Suc n)) s i ?w1 = Inr w3"
    unfolding sig_disconnect_def the_signal_Some[OF s1] and_then_Inr disconnect_unlink[OF ids] p
    using rel by simp
  have lv: "leave (run_actions (Suc n)) t s flag w1 =
      (if flag then sig_disconnectTracker s t w3 else Inr w3)"
    unfolding leave_def progress_tracker[OF Suc.prems(1)] and_then_Inr
    by (simp only: tracker.simps mo option.simps Let_def fst_conv snd_conv map_erase_filter sd
        and_then_Inr)
  show ?case
  proof (cases flag)
    case False
    then show ?thesis using lv p3 sub by auto
  next
    case True
    have "s \<notin> R'" using sub by auto
    from progress_unwatch[OF p3 dist mem this] obtain h3 where
      "signals w3 s = Some h3" "progress t m w R' (put_signal s (disconnectTracker h3 t) w3)"
      by blast
    then show ?thesis using lv True sub
      by (auto simp: sig_disconnectTracker_def the_signal_Some)
  qed
qed

lemma leaveAll_progress:
  assumes ok: "tracked_ok t w m"
  shows "progress t m w R w1 \<Longrightarrow> card R < k \<Longrightarrow> card R \<le> n \<Longrightarrow>
         \<exists>w2. leaveAll k (run_actions n) t w1 = Inr w2 \<and> progress t m w {} w2"
proof (induction k arbitrary: R w1)
  case 0
  then show ?case by simp
next
  case (Suc k)
  show ?case
  proof (cases "filter (\<lambda>e. fst e \<in> R) m")
    case Nil
    then have "R = {}" using Suc.prems(1) by (auto simp: progress_def filter_empty_conv)
    then show ?thesis using Suc.prems(1) Nil
      by (auto simp: progress_tracker[OF Suc.prems(1)])
  next
    case (Cons e es)
    then have "e \<in> set (filter (\<lambda>e. fst e \<in> R) m)" by simp
    then have sR: "fst e \<in> R" by simp
    from leave_progress[OF ok Suc.prems(1) sR Suc.prems(3), of True] obtain R' w2 where
      lv: "leave (run_actions n) t (fst e) True w1 = Inr w2" and p2: "progress t m w R' w2"
      and sub: "R' \<subseteq> R - {fst e}" by blast
    have "card R' < card R"
      using sub sR progress_finite[OF Suc.prems(1)]
      by (metis Diff_subset card_Diff1_less card_mono finite_subset le_less_trans)
    then have "card R' < k" "card R' \<le> n" using Suc.prems(2,3) by auto
    from Suc.IH[OF p2 this] show ?thesis
      using lv Cons by (simp add: progress_tracker[OF Suc.prems(1)])
  qed
qed

lemma map_of_split:
  "map_of xs i = Some p \<Longrightarrow> \<exists>ys zs. xs = ys @ (i, p) # zs \<and> i \<notin> fst ` set ys"
proof (induction xs)
  case Nil
  then show ?case by simp
next
  case (Cons e xs)
  show ?case
  proof (cases "fst e = i")
    case True
    then have "e = (i, p)" using Cons.prems by (cases e) auto
    then show ?thesis by (intro exI[of _ "[]"] exI[of _ xs]) simp
  next
    case False
    then have "map_of xs i = Some p" using Cons.prems by (cases e) auto
    from Cons.IH[OF this] obtain ys zs where "xs = ys @ (i, p) # zs" "i \<notin> fst ` set ys" by blast
    then show ?thesis using False by (intro exI[of _ "e # ys"] exI[of _ zs]) simp
  qed
qed

lemma unlink_counts:
  assumes "distinct (slot_ids h)" "map_of (m_slots h) i = Some p"
  shows "length (live_slots (unlink i h)) = length (live_slots h) - (if p = None then 0 else 1) \<and>
         (m_emitting h = 0 \<longrightarrow> Suc (length (m_slots (unlink i h))) = length (m_slots h)) \<and>
         (m_emitting h \<noteq> 0 \<longrightarrow> length (m_slots (unlink i h)) = length (m_slots h))"
proof -
  from map_of_split[OF assms(2)] obtain ys zs where
    sl: "m_slots h = ys @ (i, p) # zs" and ys: "i \<notin> fst ` set ys" by blast
  have zs: "i \<notin> fst ` set zs" using assms(1) sl by (auto simp: slot_ids_def)
  show ?thesis
    by (simp add: unlink_def live_slots_def sl assign_empty_mid[OF ys zs] erase_node_mid[OF ys zs])
qed

lemma map_of_keys: "map_of m s = Some i \<Longrightarrow> (s, i) \<in> set m"
  by (rule map_of_SomeD)

text \<open>
  \<^verbatim>\<open>leaveAll\<close> where every entry of the tracker \<open>t\<close> names a signal that is alive and a
  node that is in the list of that signal, and the destructors of the functors at
  these nodes at most call \<^verbatim>\<open>leave(sig)\<close> on \<open>t\<close> again. Then \<^verbatim>\<open>leaveAll\<close>, and with it the
  destructor of the tracker, returns, given a bound above the number of entries.
  Afterwards the map is empty. A signal that had no entry is as it was. A signal that
  had an entry has lost exactly the slot of that entry: its list is one entry shorter
  if it is not emitting, and has that entry emptied in place if it is; the number of
  its entries that hold a functor is one less if the slot held one.
\<close>

lemma leaveAll_valid:
  assumes "trackers w t = Some tr" and "tracked_ok t w (m_connections tr)"
    and "length (m_connections tr) < k" and "length (m_connections tr) \<le> n"
  shows "\<exists>w0. leaveAll k (run_actions n) t w = Inr w0 \<and>
           destroy_tracker k (run_actions n) t w = Inr (w0\<lparr>trackers := (trackers w0)(t := None)\<rparr>) \<and>
           trackers w0 = (trackers w)(t \<mapsto> \<lparr>m_connections = []\<rparr>) \<and> log w0 = log w \<and>
           (\<forall>s. case map_of (m_connections tr) s of
                  None \<Rightarrow> signals w0 s = signals w s
                | Some i \<Rightarrow>
                    (\<exists>h h'. signals w s = Some h \<and> signals w0 s = Some h' \<and>
                       m_slots h' = m_slots (unlink i h) \<and>
                       length (live_slots h') =
                         length (live_slots h) -
                           (if map_of (m_slots h) i = Some None then 0 else 1) \<and>
                       length (m_slots h') =
                         (if m_emitting h = 0 then length (m_slots h) - 1
                          else length (m_slots h))))"
proof -
  let ?m = "m_connections tr"
  let ?R = "fst ` set ?m"
  have dist: "distinct (map fst ?m)" using assms(2) by (simp add: tracked_ok_def sorted_keys_distinct)
  have card: "card ?R \<le> length ?m" by (metis card_length length_map set_map)
  have p0: "progress t ?m w ?R w" using assms(1) by (rule progress_start)
  from leaveAll_progress[OF assms(2) p0, of k n] card assms(3,4)
  obtain w0 where la: "leaveAll k (run_actions n) t w = Inr w0" and p: "progress t ?m w {} w0"
    by auto
  have tr0: "trackers w0 = (trackers w)(t \<mapsto> \<lparr>m_connections = []\<rparr>)" and lg: "log w0 = log w"
    using p by (simp_all add: progress_def)
  have sig: "case map_of ?m s of
                  None \<Rightarrow> signals w0 s = signals w s
                | Some i \<Rightarrow>
                    (\<exists>h h'. signals w s = Some h \<and> signals w0 s = Some h' \<and>
                       m_slots h' = m_slots (unlink i h) \<and>
                       length (live_slots h') =
                         length (live_slots h) -
                           (if map_of (m_slots h) i = Some None then 0 else 1) \<and>
                       length (m_slots h') =
                         (if m_emitting h = 0 then length (m_slots h) - 1
                          else length (m_slots h)))" for s
  proof (cases "map_of ?m s")
    case None
    then have "s \<notin> ?R" by (simp add: map_of_eq_None_iff)
    then show ?thesis using p None by (simp add: progress_def)
  next
    case (Some i)
    then have mem: "(s, i) \<in> set ?m" by (rule map_of_SomeD)
    from tracked_okD[OF assms(2) mem] obtain h q where h: "signals w s = Some h"
      and d: "distinct (slot_ids h)" and q: "map_of (m_slots h) i = Some q" by blast
    from p mem h obtain T where h': "signals w0 s = Some ((unlink i h)\<lparr>m_trackers := T\<rparr>)"
      unfolding progress_def by fastforce
    from unlink_counts[OF d q] show ?thesis
      by (auto simp: Some h h' q live_slots_def)
  qed
  show ?thesis
    using la tr0 lg sig by (intro exI[of _ w0]) (simp add: destroy_tracker_def)
qed

lemmas tracker_defs = join_def leave_def leave_sig_def tracker_disconnect_def
  destroy_tracker_def destroy_holder_def sig_connectTracker_def sig_disconnectTracker_def
  connectTracker_def disconnectTracker_def map_erase_def Let_def

lemma leaveAll_valid_example:
  "tracked_ok 7 ex_two [(0, 0), (1, 0)] \<and>
   destroy_tracker 3 (run_actions 2) 7 ex_two =
     Inr \<lparr>signals = [1 \<mapsto> \<lparr>m_slots = [(1, Some (Cb 12 [] []))],
                         m_trackers = [7], m_emitting = 0, fresh = 2\<rparr>,
                  0 \<mapsto> \<lparr>m_slots = [], m_trackers = [],
                         m_emitting = 0, fresh = 1\<rparr>],
          trackers = Map.empty, log = []\<rparr>"
proof -
  have hyp: "trackers ex_two 7 = Some \<lparr>m_connections = [(0, 0), (1, 0)]\<rparr>"
    "tracked_ok 7 ex_two (m_connections \<lparr>m_connections = [(0, 0), (1, 0)]\<rparr>)"
    "length (m_connections \<lparr>m_connections = [(0, 0), (1, 0)]\<rparr>) < 3"
    "length (m_connections \<lparr>m_connections = [(0, 0), (1, 0)]\<rparr>) \<le> 2"
    by (simp_all add: tracked_ok_def ex_two_def slot_ids_def leaves_only_def)
  have run: "destroy_tracker 3 (run_actions 2) 7 ex_two =
     Inr \<lparr>signals = [1 \<mapsto> \<lparr>m_slots = [(1, Some (Cb 12 [] []))],
                         m_trackers = [7], m_emitting = 0, fresh = 2\<rparr>,
                  0 \<mapsto> \<lparr>m_slots = [], m_trackers = [],
                         m_emitting = 0, fresh = 1\<rparr>],
          trackers = Map.empty, log = []\<rparr>"
    by (simp add: api_defs tracker_defs ex_two_def eval_nat_numeral)
  from leaveAll_valid [OF hyp] hyp(2) run show ?thesis by simp
qed

text \<open>
  C8. The claim holds of the states above, not of every state that the calls of the
  two classes reach. A tracker joins a signal behind a functor that disconnects itself
  when it is invoked. The \<^verbatim>\<open>emit()\<close> that follows ends with the compaction, which moves the
  functor of the tracker into the first node and frees the node whose iterator the
  tracker holds: \<^verbatim>\<open>leaveAll\<close> and the destructor of the tracker hand that iterator to
  \<^verbatim>\<open>erase\<close>, and do not get to empty the map. With one more functor behind that of the
  tracker, the node of the tracker is kept and holds the other functor: the destructor
  of the tracker disconnects that one, and the functor that was joined stays connected.
  After \<^verbatim>\<open>clear()\<close> on the signal the tracker holds the iterator of a node that is gone
  as well.
\<close>

theorem leaveAll_stale_entry:
  "and_then (sig_connect 0 (Cb 10 [Disconnect 0 0] []) ex_fresh_world)
     (\<lambda>r. join (run_actions 0) 7 0 (Cb 11 [] []) (fst r)) = Inr (ex_tracked, (0, 1)) \<and>
   emit 3 (run_actions 1) 0 [] ex_tracked = Inr ex_compacted \<and>
   leaveAll 3 (run_actions 1) 7 ex_compacted = Inl StaleIterator \<and>
   destroy_tracker 3 (run_actions 1) 7 ex_compacted = Inl StaleIterator \<and>
   and_then (sig_connect 0 (Cb 12 [] []) ex_tracked) (\<lambda>r. Inr (fst r)) = Inr ex_shared \<and>
   emit 4 (run_actions 1) 0 [] ex_shared = Inr ex_shifted \<and>
   destroy_tracker 3 (run_actions 1) 7 ex_shifted = Inr ex_mistaken \<and>
   sig_clear 2 (run_actions 0) 0 (ex_joined 0) = Inr ex_cleared \<and>
   leaveAll 3 (run_actions 1) 7 ex_cleared = Inl StaleIterator \<and>
   destroy_tracker 3 (run_actions 1) 7 ex_cleared = Inl StaleIterator"
  by (simp add: api_defs tracker_defs ex_fresh_world_def ex_tracked_def ex_compacted_def
      ex_shared_def ex_shifted_def ex_mistaken_def ex_joined_def ex_cleared_def
      SignalHolder_def eval_nat_numeral)

section \<open>The destructor of a signal\<close>

lemma map_erase_idem: "map_erase s (map_erase s m) = map_erase s m"
  by (simp add: map_erase_def)

lemma notify_trackers_result:
  "\<forall>t\<in>set ts. trackers w t \<noteq> None \<Longrightarrow>
   notify_trackers ts s w =
     Inr (w\<lparr>trackers := (\<lambda>t. if t \<in> set ts
                 then map_option (\<lambda>tr. tr\<lparr>m_connections := map_erase s (m_connections tr)\<rparr>)
                        (trackers w t)
                 else trackers w t)\<rparr>)"
proof (induction ts arbitrary: w)
  case Nil
  then show ?case by simp
next
  case (Cons t ts)
  then obtain tr where tr: "trackers w t = Some tr" by auto
  let ?E = "\<lambda>tr. tr\<lparr>m_connections := map_erase s (m_connections tr)\<rparr>"
  let ?w1 = "put_tracker t (?E tr) w"
  have td: "tracker_disconnect t s w = Inr ?w1"
    by (simp add: tracker_disconnect_def the_tracker_Some[OF tr])
  have "\<forall>t\<in>set ts. trackers ?w1 t \<noteq> None" using Cons.prems by (simp add: put_tracker_def)
  from Cons.IH[OF this] show ?case
    by (auto simp: td put_tracker_def tr map_erase_idem intro!: world.equality)
qed

lemma release_all_inert:
  "\<forall>p\<in>set ps. \<forall>f. p = Some f \<longrightarrow> cb_dtor f = [] \<Longrightarrow>
   release_all (run_actions n) ps w = Inr w"
  by (induction ps) (auto simp: release_def split: option.splits)

lemma tracked_ok_cong:
  "\<forall>e\<in>set m. signals w' (fst e) = signals w (fst e) \<Longrightarrow> tracked_ok t w' m = tracked_ok t w m"
  by (auto simp: tracked_ok_def list_all_iff)

lemma map_erase_keys: "fst ` set (map_erase s m) = fst ` set m - {s}"
  by (auto simp: map_erase_def)

lemma set_insert_sorted:
  "sorted_wrt (<) xs \<Longrightarrow> sorted_wrt (<) (set_insert x xs)"
  by (induction xs) (auto simp: set_set_insert)

text \<open>
  A signal is destroyed while the trackers in its set are alive (the destructors of
  its functors do nothing). The destructor returns without an error; every tracker of
  the set has its entry for the signal erased, and nothing else changes but that the
  signal is gone. A later \<^verbatim>\<open>leaveAll\<close> on such a tracker, whose other entries are valid,
  returns without reaching the destroyed signal, and leaves the map empty.
\<close>

lemma destroy_holder_notifies:
  assumes "signals w s = Some h" and "\<forall>t\<in>set (m_trackers h). trackers w t \<noteq> None"
    and "\<forall>e\<in>set (m_slots h). \<forall>f. snd e = Some f \<longrightarrow> cb_dtor f = []"
  shows "\<exists>w'. destroy_holder (run_actions n) s w = Inr w' \<and>
           signals w' = (signals w)(s := None) \<and> log w' = log w \<and>
           (\<forall>t. trackers w' t =
                  (if t \<in> set (m_trackers h)
                   then map_option (\<lambda>tr. tr\<lparr>m_connections := map_erase s (m_connections tr)\<rparr>)
                          (trackers w t)
                   else trackers w t)) \<and>
           (\<forall>t tr k n'.
              t \<in> set (m_trackers h) \<and> trackers w t = Some tr \<and>
              tracked_ok t w (map_erase s (m_connections tr)) \<and>
              length (m_connections tr) < k \<and> length (m_connections tr) \<le> n' \<longrightarrow>
              (\<exists>tr'. trackers w' t = Some tr' \<and> map_of (m_connections tr') s = None) \<and>
              (\<exists>w''. leaveAll k (run_actions n') t w' = Inr w'' \<and> signals w'' s = None \<and>
                     trackers w'' t = Some \<lparr>m_connections = []\<rparr>))"
proof -
  let ?E = "\<lambda>tr. tr\<lparr>m_connections := map_erase s (m_connections tr)\<rparr>"
  let ?T = "\<lambda>t. if t \<in> set (m_trackers h) then map_option ?E (trackers w t) else trackers w t"
  let ?w' = "w\<lparr>trackers := ?T, signals := (signals w)(s := None)\<rparr>"
  have n: "notify_trackers (m_trackers h) s w = Inr (w\<lparr>trackers := ?T\<rparr>)"
    using assms(2) by (rule notify_trackers_result)
  have r: "release_all (run_actions n) (map snd (m_slots h))
             (w\<lparr>trackers := ?T, signals := (signals w)(s := None)\<rparr>) = Inr ?w'"
    using assms(3) by (intro release_all_inert) auto
  have d: "destroy_holder (run_actions n) s w = Inr ?w'"
    by (simp add: destroy_holder_def the_signal_Some[OF assms(1)] n r)
  have later: "(\<exists>tr'. trackers ?w' t = Some tr' \<and> map_of (m_connections tr') s = None) \<and>
              (\<exists>w''. leaveAll k (run_actions n') t ?w' = Inr w'' \<and> signals w'' s = None \<and>
                     trackers w'' t = Some \<lparr>m_connections = []\<rparr>)"
    if t: "t \<in> set (m_trackers h)" and tr: "trackers w t = Some tr"
      and ok: "tracked_ok t w (map_erase s (m_connections tr))"
      and k: "length (m_connections tr) < k" and n': "length (m_connections tr) \<le> n'"
    for t tr k n'
  proof -
    let ?m = "map_erase s (m_connections tr)"
    have tr': "trackers ?w' t = Some (?E tr)" using t tr by simp
    have ok': "tracked_ok t ?w' ?m"
      using ok by (subst tracked_ok_cong[where w=w]) (auto simp: map_erase_def)
    have p0: "progress t ?m ?w' (fst ` set ?m) ?w'"
      using progress_start[OF tr'] by simp
    have "card (fst ` set ?m) \<le> length ?m" by (metis card_length length_map set_map)
    moreover have "length ?m \<le> length (m_connections tr)" by (simp add: map_erase_def)
    ultimately have c: "card (fst ` set ?m) < k" "card (fst ` set ?m) \<le> n'" using k n' by auto
    from leaveAll_progress[OF ok' p0 c] obtain w'' where
      la: "leaveAll k (run_actions n') t ?w' = Inr w''" and p: "progress t ?m ?w' {} w''" by blast
    have "s \<notin> fst ` set ?m" by (simp add: map_erase_keys)
    then have "signals w'' s = signals ?w' s" using p by (simp add: progress_def)
    moreover have "trackers w'' t = Some \<lparr>m_connections = []\<rparr>" using p by (simp add: progress_def)
    ultimately show ?thesis using la tr' by auto
  qed
  show ?thesis
    using d later by (intro exI[of _ ?w']) auto
qed

lemma destroy_holder_notifies_example:
  "destroy_holder (run_actions 0) 0 ex_watched = Inr ex_orphaned \<and>
   leaveAll 3 (run_actions 1) 7 ex_orphaned =
     Inr \<lparr>signals = [1 \<mapsto> \<lparr>m_slots = [], m_trackers = [], m_emitting = 0, fresh = 1\<rparr>],
          trackers = [7 \<mapsto> \<lparr>m_connections = []\<rparr>], log = []\<rparr>"
proof -
  have hyp: "signals ex_watched 0 =
      Some \<lparr>m_slots = [(0, Some (Cb 10 [] []))], m_trackers = [7], m_emitting = 0, fresh = 1\<rparr>"
    "\<forall>t\<in>set (m_trackers \<lparr>m_slots = [(0, Some (Cb 10 [] []))], m_trackers = [7],
        m_emitting = 0, fresh = 1\<rparr>). trackers ex_watched t \<noteq> None"
    "\<forall>e\<in>set (m_slots \<lparr>m_slots = [(0, Some (Cb 10 [] []))], m_trackers = [7],
        m_emitting = 0, fresh = 1\<rparr>). \<forall>f. snd e = Some f \<longrightarrow> cb_dtor f = []"
    by (simp_all add: ex_watched_def)
  have run: "destroy_holder (run_actions 0) 0 ex_watched = Inr ex_orphaned"
    "leaveAll 3 (run_actions 1) 7 ex_orphaned =
     Inr \<lparr>signals = [1 \<mapsto> \<lparr>m_slots = [], m_trackers = [], m_emitting = 0, fresh = 1\<rparr>],
          trackers = [7 \<mapsto> \<lparr>m_connections = []\<rparr>], log = []\<rparr>"
    by (auto simp: api_defs tracker_defs ex_watched_def ex_orphaned_def eval_nat_numeral
        fun_eq_iff intro!: world.equality)
  from destroy_holder_notifies [OF hyp, of 0] run show ?thesis by blast
qed

text \<open>
  C9. The trackers in the set of a signal need not be alive. \<^verbatim>\<open>leave(sig)\<close> erases the
  entry of the tracker and disconnects the slot, but leaves the tracker in the set of
  the signal: it calls \<^verbatim>\<open>leave(id)\<close> with \<^verbatim>\<open>withTracker = false\<close>, where \<^verbatim>\<open>leaveAll\<close> passes
  \<^verbatim>\<open>true\<close>. The destructor of the tracker then finds no entry for the signal and does
  not reach it, so the signal keeps the pointer to a tracker that is gone, and its own
  destructor calls \<^verbatim>\<open>disconnect\<close> on that tracker.
\<close>

theorem destroy_holder_dead_tracker:
  "and_then (join (run_actions 0) 7 0 (Cb 10 [] []) ex_fresh_world)
     (\<lambda>r. leave_sig (run_actions 0) 7 0 (fst r)) = Inr ex_left \<and>
   destroy_tracker 3 (run_actions 1) 7 ex_left = Inr ex_dangling \<and>
   destroy_holder (run_actions 0) 0 ex_dangling = Inl DeadTracker"
  by (simp add: api_defs tracker_defs ex_fresh_world_def ex_left_def ex_dangling_def
      SignalHolder_def eval_nat_numeral)

section \<open>The range of the emission counter\<close>

text \<open>
  \<open>m_emitting\<close> is an \<^verbatim>\<open>unsigned\<close>: it counts the nested calls of \<^verbatim>\<open>emit_\<close> as long as
  there are fewer than \<open>2 ^ 32\<close> of them, and reads zero again at \<open>2 ^ 32\<close>.
\<close>

lemma begin_emitting_pow:
  "(begin_emitting ^^ k) h = h\<lparr>m_emitting := m_emitting h + of_nat k\<rparr>"
  by (induction k) (simp_all add: begin_emitting_def add.commute add.left_commute)

lemma begin_emitting_wraps: "(begin_emitting ^^ (2 ^ 32)) h = h"
  by (simp add: begin_emitting_pow)

section \<open>Holders that the operations can reach\<close>

text \<open>
  The theorems above take the nodes of a list to be distinct and older than the next
  node to be allocated. Every holder that the operations of the class reach from a new
  one is so.
\<close>

lemma holder_inv_unlink: "holder_inv h \<Longrightarrow> holder_inv (unlink i h)"
proof -
  assume inv: "holder_inv h"
  have "set (map fst (erase_node i (m_slots h))) \<subseteq> set (map fst (m_slots h))"
    by (auto simp: erase_node_def)
  moreover have "set (map fst (assign_empty i (m_slots h))) = set (map fst (m_slots h))"
    by simp
  moreover have "distinct (map fst (erase_node i (m_slots h)))"
    using inv by (simp add: holder_inv_def slot_ids_def erase_node_def distinct_map_filter)
  ultimately show ?thesis
    using inv
    by (auto simp: holder_inv_def unlink_def slot_ids_def list_all_iff simp del: set_map)
qed

lemma compact_node_mem: "e \<in> set (compact xs) \<Longrightarrow> fst e \<in> fst ` set xs"
  by (cases e) (auto simp: compact_def dest: set_zip_leftD)

lemma holder_inv_step:
  assumes "holder_step opn (h, n) = Some (h', n')" "holder_inv h"
  shows "holder_inv h'"
proof (cases opn)
  case (OpConnect p)
  then have "h' = h\<lparr>m_slots := m_slots h @ [(fresh h, p)], fresh := Suc (fresh h)\<rparr>"
    using assms(1) by (auto simp: holder_step_def connect_def)
  then show ?thesis
    using assms(2) by (fastforce simp: holder_inv_def slot_ids_def list_all_iff)
next
  case (OpDisconnect i)
  then have "h' = unlink i h"
    using assms(1)
    by (auto simp: holder_step_def disconnect_def unlink_def split: sum.splits if_splits)
  then show ?thesis using assms(2) by (simp add: holder_inv_unlink)
next
  case OpClear
  then have "h' = clear h" using assms(1) by (auto simp: holder_step_def)
  then show ?thesis
    using assms(2) by (auto simp: holder_inv_def clear_def slot_ids_def list_all_iff comp_def)
next
  case (OpConnectTracker t)
  then show ?thesis
    using assms by (auto simp: holder_step_def holder_inv_def connectTracker_def slot_ids_def
        set_insert_sorted)
next
  case (OpDisconnectTracker t)
  then show ?thesis
    using assms by (auto simp: holder_step_def holder_inv_def disconnectTracker_def slot_ids_def
        sorted_wrt_filter)
next
  case OpBeginEmit
  then show ?thesis
    using assms by (auto simp: holder_step_def holder_inv_def begin_emitting_def slot_ids_def)
next
  case OpEndEmit
  then have h': "h' = end_emitting h" using assms(1) by (auto simp: holder_step_def split: if_splits)
  have d: "distinct (map fst (compact (m_slots h)))"
    using assms(2) by (simp add: holder_inv_def slot_ids_def distinct_slot_ids_compact)
  have b: "fst e < fresh h" if "e \<in> set (compact (m_slots h))" for e
    using assms(2) compact_node_mem[OF that]
    by (auto simp: holder_inv_def slot_ids_def list_all_iff)
  show ?thesis
    using assms(2) d b
    by (auto simp: h' holder_inv_def end_emitting_def Let_def slot_ids_def list_all_iff)
qed

lemma holder_inv_run:
  "holder_run ops (h, n) = Some (h', n') \<Longrightarrow> holder_inv h \<Longrightarrow> holder_inv h'"
proof (induction ops arbitrary: h n)
  case Nil
  then show ?case by simp
next
  case (Cons opn ops)
  then show ?case by (auto split: option.splits dest: holder_inv_step)
qed

lemma holder_inv_reachable:
  "holder_run ops (SignalHolder, 0) = Some (h, n) \<Longrightarrow> holder_inv h"
  by (erule holder_inv_run) (simp add: holder_inv_def SignalHolder_def slot_ids_def)

end
